theory Spec2Isabelle
  imports Main "HOL-Library.Word"
begin

unbundle bit_operations_syntax

section \<open>The EC console log of \<open>fwk_ec_debugfs.c\<close>\<close>

text \<open>
  The driver keeps the console log of the embedded controller in a circular buffer
  (\<open>struct circ_buf\<close>: storage, \<open>head\<close>, \<open>tail\<close>). The recurring work item
  \<open>fwk_ec_console_log_work\<close> appends bytes at \<open>head\<close>, the file operation
  \<open>fwk_ec_console_log_read\<close> takes bytes from \<open>tail\<close>; both touch the buffer only
  while holding \<open>log_mutex\<close>, so each locked section is one atomic step on the
  buffer.

  The capacity of the buffer is the compile-time constant \<open>LOG_SIZE = 1 << LOG_SHIFT\<close>.
  The functions below take the capacity as their first argument \<open>sz\<close>, the way the
  macros of the source take \<open>size\<close>, so that they can also be run on the small
  buffers of the spec's scenarios. The driver is the instance \<open>sz = LOG_SIZE\<close>; the
  theorems assume only that \<open>sz\<close> is a power of two, which \<open>LOG_SIZE\<close> is (lemma
  \<open>LOG_SIZE_pow2\<close>).
\<close>

subsection \<open>Constants and macros\<close>

type_synonym u8 = "8 word"

definition LOG_SHIFT :: nat where
  "LOG_SHIFT = 14"

definition LOG_SIZE :: int where
  "LOG_SIZE = push_bit LOG_SHIFT 1"

definition LOG_POLL_SEC :: nat where
  "LOG_POLL_SEC = 10"

text \<open>\<open>#define CIRC_ADD(idx, size, value) (((idx) + (value)) & ((size) - 1))\<close>\<close>

definition CIRC_ADD :: "int \<Rightarrow> int \<Rightarrow> int \<Rightarrow> int" where
  "CIRC_ADD idx sz v = (idx + v) AND (sz - 1)"

text \<open>
  Modelled from the spec: the macros \<open>CIRC_CNT\<close>, \<open>CIRC_SPACE\<close> and
  \<open>CIRC_CNT_TO_END\<close> come from the header \<open>linux/circ_buf.h\<close>, which is not among the
  sources of the driver. The spec gives their meaning: the count of valid bytes is
  \<open>(head - tail) mod capacity\<close>, the free space is \<open>capacity - 1 - count\<close>, and the
  contiguous count is the largest run of valid bytes starting at \<open>tail\<close> that does not
  pass the physical end of the storage. They are written here with the mask
  \<open>size - 1\<close>, as \<open>CIRC_ADD\<close> of the driver is; the lemmas \<open>CIRC_CNT_mod\<close>,
  \<open>CIRC_SPACE_cnt\<close> and \<open>CIRC_CNT_TO_END_min\<close> below show that on a power-of-two
  capacity these are the quantities the spec names.
\<close>

definition CIRC_CNT :: "int \<Rightarrow> int \<Rightarrow> int \<Rightarrow> int" where
  "CIRC_CNT h t sz = (h - t) AND (sz - 1)"

definition CIRC_SPACE :: "int \<Rightarrow> int \<Rightarrow> int \<Rightarrow> int" where
  "CIRC_SPACE h t sz = CIRC_CNT t (h + 1) sz"

definition CIRC_CNT_TO_END :: "int \<Rightarrow> int \<Rightarrow> int \<Rightarrow> int" where
  "CIRC_CNT_TO_END h t sz =
     (let end = sz - t;
          n = (h + end) AND (sz - 1)
      in if n < end then n else end)"

subsection \<open>Data\<close>

text \<open>
  \<open>struct circ_buf\<close>: the storage is a region of bytes addressed by index, \<open>head\<close>
  and \<open>tail\<close> are C \<open>int\<close>s. All arithmetic on them stays far below \<open>2^31\<close>
  (indices below the capacity, plus at most one capacity), so unbounded integers with
  the mask written out behave as the C code does.
\<close>

record circ_buf =
  buf :: "int \<Rightarrow> u8"
  head :: int
  tail :: int

text \<open>
  The part of \<open>struct fwk_ec_debugfs\<close> the log path uses: the buffer of one device
  instance.
\<close>

record debugfs =
  log_buffer :: circ_buf

text \<open>
  Modelled from the spec: \<open>dev_info_once\<close> is a kernel macro, not part of the
  driver's sources. The spec describes it as a one-shot diagnostic, "a sticky boolean
  flag checked-and-set", emitted once per process lifetime. The flag belongs to the
  call site in \<open>fwk_ec_console_log_work\<close>, not to a device: there is one for the
  whole process, shared by all device instances, and nothing in the driver clears it.
  It is the argument \<open>once\<close> of the functions below, which return its new value.
\<close>

text \<open>
  The command transport \<open>fwk_ec_cmd_xfer_status\<close> is external. A cycle of the work
  item sees it as the status of the snapshot command and, for the \<open>n\<close>-th read
  command of the cycle, the returned status \<open>ret\<close> together with the bytes found in
  the response buffer \<open>ec_buffer\<close>.
\<close>

type_synonym xfer = "int \<times> (nat \<Rightarrow> u8)"

record ec_transport =
  snapshot_ret :: int
  read_resp :: "nat \<Rightarrow> xfer"

text \<open>What a cycle does to the outside, in program order.\<close>

datatype event =
    XferSnapshot
  | XferRead
  | WakeUp
  | DevInfo
  | ScheduleDelayedWork nat

text \<open>Which \<open>break\<close> ended the \<open>while (1)\<close> loop of a cycle.\<close>

datatype stop = NoSpace | XferError | NoData

datatype error = EAGAIN | ERESTARTSYS | EFAULT

subsection \<open>The acquisition cycle: \<open>fwk_ec_console_log_work\<close>\<close>

text \<open>
  The inner loop
  \<^verbatim>\<open>while (idx < ret && ec_buffer[idx] != '\0' && buf_space > 0) {
    cb->buf[cb->head] = ec_buffer[idx];
    cb->head = CIRC_ADD(cb->head, LOG_SIZE, 1);
    idx++;
    buf_space--;
  }\<close>
  returns the buffer, \<open>idx\<close> and \<open>buf_space\<close> as the loop leaves them.
  \<open>buf_space\<close> is a \<open>nat\<close>: it starts as a value of \<open>CIRC_SPACE\<close>, which the mask keeps
  non-negative (lemma \<open>CIRC_SPACE_nonneg\<close>), and is decremented only while positive.
\<close>

function copy_loop ::
  "int \<Rightarrow> int \<Rightarrow> (nat \<Rightarrow> u8) \<Rightarrow> nat \<Rightarrow> circ_buf \<Rightarrow> nat \<Rightarrow> circ_buf \<times> nat \<times> nat" where
  "copy_loop sz ret ec_buffer idx cb buf_space =
     (if int idx < ret \<and> ec_buffer idx \<noteq> 0 \<and> buf_space > 0
      then copy_loop sz ret ec_buffer (idx + 1)
             (cb\<lparr>buf := (buf cb)(head cb := ec_buffer idx),
                 head := CIRC_ADD (head cb) sz 1\<rparr>)
             (buf_space - 1)
      else (cb, idx, buf_space))"
  by pat_completeness auto
termination
  by (relation "measure (\<lambda>(sz, ret, ec_buffer, idx, cb, buf_space). buf_space)") auto

declare copy_loop.simps [simp del]

text \<open>
  The result of the \<open>while (1)\<close> loop: the buffer, the \<open>dev_info_once\<close> flag, the
  events in order, the bytes stored into the buffer in order, and the \<open>break\<close> taken.
\<close>

record loop_result =
  lr_cb :: circ_buf
  lr_once :: bool
  lr_events :: "event list"
  lr_appended :: "u8 list"
  lr_stop :: stop

lemma copy_loop_space_less:
  "0 < ret \<Longrightarrow> ec_buffer 0 \<noteq> 0 \<Longrightarrow> 0 < buf_space \<Longrightarrow>
   snd (snd (copy_loop sz ret ec_buffer 0 cb buf_space)) < buf_space"
proof -
  have le: "snd (snd (copy_loop sz ret ec_buffer idx cb' bs)) \<le> bs" for idx cb' bs
    by (induction sz ret ec_buffer idx cb' bs rule: copy_loop.induct)
       (subst copy_loop.simps, auto)
  assume "0 < ret" "ec_buffer 0 \<noteq> 0" "0 < buf_space"
  then have "copy_loop sz ret ec_buffer 0 cb buf_space =
      copy_loop sz ret ec_buffer 1
        (cb\<lparr>buf := (buf cb)(head cb := ec_buffer 0), head := CIRC_ADD (head cb) sz 1\<rparr>)
        (buf_space - 1)"
    by (subst copy_loop.simps) simp
  with le [of 1 _ "buf_space - 1"] \<open>0 < buf_space\<close> show ?thesis
    by (metis Suc_pred' less_Suc_eq_le)
qed

text \<open>
  The \<open>while (1)\<close> loop of the cycle, entered with the mutex held. \<open>n\<close> counts the read
  commands already issued in this cycle.
\<close>

function log_work_loop ::
  "int \<Rightarrow> (nat \<Rightarrow> xfer) \<Rightarrow> nat \<Rightarrow> circ_buf \<Rightarrow> nat \<Rightarrow> bool \<Rightarrow> loop_result" where
  "log_work_loop sz ec n cb buf_space once =
     (if buf_space = 0
      then \<lparr>lr_cb = cb, lr_once = True,
            lr_events = (if once then [] else [DevInfo]),
            lr_appended = [], lr_stop = NoSpace\<rparr>
      else
        let ret = fst (ec n); ec_buffer = snd (ec n) in
        if ret < 0
        then \<lparr>lr_cb = cb, lr_once = once, lr_events = [XferRead],
              lr_appended = [], lr_stop = XferError\<rparr>
        else if ret = 0 \<or> ec_buffer 0 = 0
        then \<lparr>lr_cb = cb, lr_once = once, lr_events = [XferRead],
              lr_appended = [], lr_stop = NoData\<rparr>
        else
          let r = copy_loop sz ret ec_buffer 0 cb buf_space;
              rest = log_work_loop sz ec (n + 1) (fst r) (snd (snd r)) once
          in rest\<lparr>lr_events := XferRead # WakeUp # lr_events rest,
                  lr_appended := map ec_buffer [0..<fst (snd r)] @ lr_appended rest\<rparr>)"
  by pat_completeness auto
termination
proof (relation "measure (\<lambda>(sz, ec, n, cb, buf_space, once). buf_space)", goal_cases)
  case 1
  show ?case by simp
next
  case (2 sz ec n cb buf_space once ret ec_buffer r)
  then have "0 < ret" "ec_buffer 0 \<noteq> 0" "0 < buf_space"
    by auto
  then have "snd (snd (copy_loop sz ret ec_buffer 0 cb buf_space)) < buf_space"
    by (rule copy_loop_space_less)
  with 2 show ?case
    by simp
qed

declare log_work_loop.simps [simp del]

text \<open>
  The result of one cycle: the state of the device, the \<open>dev_info_once\<close> flag of
  the process, the events in order, the bytes stored, and the \<open>break\<close> that ended the
  loop (\<open>None\<close> when the loop was never entered).
\<close>

record work_result =
  wr_state :: debugfs
  wr_once :: bool
  wr_events :: "event list"
  wr_appended :: "u8 list"
  wr_stop :: "stop option"

definition fwk_ec_console_log_work ::
  "int \<Rightarrow> ec_transport \<Rightarrow> bool \<Rightarrow> debugfs \<Rightarrow> work_result" where
  "fwk_ec_console_log_work sz ec once d =
     (let resched = ScheduleDelayedWork (LOG_POLL_SEC * 1000) in
      if snapshot_ret ec < 0
      then \<lparr>wr_state = d, wr_once = once, wr_events = [XferSnapshot, resched],
            wr_appended = [], wr_stop = None\<rparr>
      else
        let cb = log_buffer d;
            buf_space = nat (CIRC_SPACE (head cb) (tail cb) sz);
            r = log_work_loop sz (read_resp ec) 0 cb buf_space once
        in \<lparr>wr_state = d\<lparr>log_buffer := lr_cb r\<rparr>, wr_once = lr_once r,
             wr_events = XferSnapshot # lr_events r @ [resched],
             wr_appended = lr_appended r, wr_stop = Some (lr_stop r)\<rparr>)"

subsection \<open>The reader: \<open>fwk_ec_console_log_read\<close>\<close>

text \<open>
  Modelled from the spec: \<open>copy_to_user\<close> is a kernel primitive, not part of the
  driver's sources. The spec says the read copies the bytes out to the consumer; the
  code tests the result of \<open>copy_to_user(to, from, n)\<close>, the number of bytes that
  could not be copied, and fails with \<open>-EFAULT\<close> when it is not 0. The user buffer
  is represented by \<open>writable\<close>, the number of bytes that can be written at the
  address the caller passed, so a copy of no bytes cannot fail.
\<close>

definition copy_to_user :: "nat \<Rightarrow> nat \<Rightarrow> nat" where
  "copy_to_user writable n = n - writable"

text \<open>
  Modelled from the spec: \<open>wait_event_interruptible\<close> is a kernel macro, not part
  of the driver's sources. By the spec the reader, with the mutex released, suspends
  on the wake signal; an interruption by a signal is propagated as an
  interrupted-operation error (the negative status \<open>-ERESTARTSYS\<close>, outcome
  \<open>Interrupted\<close>); otherwise the reader takes the mutex again and re-checks the buffer,
  which it finds as the other threads have left it in the meantime (\<open>Woken cb'\<close>).
  The list of these outcomes is the environment of one call; when it is used up the
  reader is still asleep and the call has not returned (\<open>None\<close>).
\<close>

datatype wait_event = Interrupted | Woken circ_buf

text \<open>
  The result of a call: the value returned (\<open>ssize_t ret\<close>, an error when negative),
  the bytes handed to the user by a successful call, and the buffer as the call leaves it.
\<close>

record read_result =
  rr_ret :: "error + nat"
  rr_data :: "u8 list"
  rr_cb :: circ_buf

fun fwk_ec_console_log_read ::
  "int \<Rightarrow> bool \<Rightarrow> nat \<Rightarrow> nat \<Rightarrow> wait_event list \<Rightarrow> circ_buf \<Rightarrow> read_result option" where
  "fwk_ec_console_log_read sz nonblock count writable ws cb =
     (if CIRC_CNT (head cb) (tail cb) sz = 0
      then
        if nonblock
        then Some \<lparr>rr_ret = Inl EAGAIN, rr_data = [], rr_cb = cb\<rparr>
        else (case ws of
                [] \<Rightarrow> None
              | Interrupted # _ \<Rightarrow>
                  Some \<lparr>rr_ret = Inl ERESTARTSYS, rr_data = [], rr_cb = cb\<rparr>
              | Woken cb' # ws' \<Rightarrow>
                  fwk_ec_console_log_read sz nonblock count writable ws' cb')
      else
        let ret = min (nat (CIRC_CNT_TO_END (head cb) (tail cb) sz)) count in
        if copy_to_user writable ret \<noteq> 0
        then Some \<lparr>rr_ret = Inl EFAULT, rr_data = [], rr_cb = cb\<rparr>
        else Some \<lparr>rr_ret = Inr ret,
                   rr_data = map (\<lambda>i. buf cb (tail cb + int i)) [0..<ret],
                   rr_cb = cb\<lparr>tail := CIRC_ADD (tail cb) sz (int ret)\<rparr>\<rparr>)"

declare fwk_ec_console_log_read.simps [simp del]

subsection \<open>The panic notifier: \<open>fwk_ec_debugfs_panic_event\<close>\<close>

text \<open>
  Modelled from the spec: the workqueue of the kernel (\<open>schedule_delayed_work\<close>,
  \<open>mod_delayed_work\<close>, \<open>flush_delayed_work\<close>) is not part of the driver's sources.
  The spec (4.4, 5 and 9) describes the acquisition task as a recurring work item that
  reschedules itself on completion, that can be requested to run immediately,
  bypassing its schedule, and that can be waited for until the run has fully
  completed; a notification that arrives while a cycle is running waits for that
  cycle and then for exactly one more. The work item is therefore a small state
  machine: a cycle may be in flight (\<open>wi_running\<close>, with the answers the EC gives it),
  and a run may be queued, due after a delay in milliseconds (\<open>wi_pending\<close>).
  \<^item> \<open>schedule_delayed_work\<close> queues a run unless one is queued already;
  \<^item> \<open>mod_delayed_work\<close> queues a run with the given delay, replacing the delay of a
    run already queued;
  \<^item> a cycle that completes has made the calls of its trace and is no longer in
    flight (\<open>finish_cycle\<close>);
  \<^item> \<open>flush_delayed_work\<close>, when a run is queued, makes it due at once and returns
    when that run has completed: a cycle in flight completes first, then the queued
    run starts and completes. When no run is queued it only waits for the cycle in
    flight. \<open>ec_next\<close> are the answers of the EC to the run it starts. It returns
    the cycles that completed during the call, in order.
\<close>

record work_item =
  wi_running :: "ec_transport option"
  wi_pending :: "nat option"

definition schedule_delayed_work :: "nat \<Rightarrow> work_item \<Rightarrow> work_item" where
  "schedule_delayed_work ms wi =
     (if wi_pending wi = None then wi\<lparr>wi_pending := Some ms\<rparr> else wi)"

definition mod_delayed_work :: "nat \<Rightarrow> work_item \<Rightarrow> work_item" where
  "mod_delayed_work ms wi = wi\<lparr>wi_pending := Some ms\<rparr>"

fun apply_event :: "work_item \<Rightarrow> event \<Rightarrow> work_item" where
  "apply_event wi (ScheduleDelayedWork ms) = schedule_delayed_work ms wi"
| "apply_event wi _ = wi"

type_synonym live = "bool \<times> debugfs \<times> work_item"

definition finish_cycle :: "int \<Rightarrow> ec_transport \<Rightarrow> live \<Rightarrow> live \<times> work_result" where
  "finish_cycle sz ec st =
     (let w = fwk_ec_console_log_work sz ec (fst st) (fst (snd st));
          wi = foldl apply_event (snd (snd st)) (wr_events w)
      in ((wr_once w, wr_state w, wi\<lparr>wi_running := None\<rparr>), w))"

definition flush_delayed_work ::
  "int \<Rightarrow> ec_transport \<Rightarrow> live \<Rightarrow> live \<times> work_result list" where
  "flush_delayed_work sz ec_next st =
     (let wi = snd (snd st);
          queued = (wi_pending wi \<noteq> None);
          wi0 = (if queued then wi\<lparr>wi_pending := Some 0\<rparr> else wi);
          st0 = (fst st, fst (snd st), wi0);
          r1 = (case wi_running wi0 of
                  None \<Rightarrow> (st0, [])
                | Some ec_r \<Rightarrow> (fst (finish_cycle sz ec_r st0),
                                [snd (finish_cycle sz ec_r st0)]));
          st1 = fst r1;
          started = (fst st1, fst (snd st1),
                     (snd (snd st1))\<lparr>wi_pending := None, wi_running := Some ec_next\<rparr>);
          r2 = (if queued
                then (fst (finish_cycle sz ec_next started),
                      [snd (finish_cycle sz ec_next started)])
                else (st1, []))
      in (fst r2, snd r1 @ snd r2))"

text \<open>
  One device as the notifier sees it: \<open>dev_log\<close> is \<open>None\<close> when
  \<open>debug_info->log_buffer.buf\<close> is \<open>NULL\<close>, that is when
  \<open>fwk_ec_create_console_log\<close> found the console log unsupported and set nothing up.
  The handler's result: the value it returns, the flag of \<open>dev_info_once\<close> and the
  device after the call, the workqueue calls it made, and the cycles that completed
  before it returned.
\<close>

record device =
  dev_log :: "debugfs option"
  dev_work :: work_item

datatype wq_call = ModDelayedWork nat | FlushDelayedWork

datatype notify = NOTIFY_DONE

record panic_result =
  pr_ret :: notify
  pr_once :: bool
  pr_dev :: device
  pr_calls :: "wq_call list"
  pr_cycles :: "work_result list"

definition fwk_ec_debugfs_panic_event ::
  "int \<Rightarrow> ec_transport \<Rightarrow> bool \<Rightarrow> device \<Rightarrow> panic_result" where
  "fwk_ec_debugfs_panic_event sz ec_next once dev =
     (case dev_log dev of
        None \<Rightarrow>
          \<lparr>pr_ret = NOTIFY_DONE, pr_once = once, pr_dev = dev, pr_calls = [], pr_cycles = []\<rparr>
      | Some d \<Rightarrow>
          let wi = mod_delayed_work 0 (dev_work dev);
              r = flush_delayed_work sz ec_next (once, d, wi)
          in \<lparr>pr_ret = NOTIFY_DONE, pr_once = fst (fst r),
               pr_dev = \<lparr>dev_log = Some (fst (snd (fst r))), dev_work = snd (snd (fst r))\<rparr>,
               pr_calls = [ModDelayedWork 0, FlushDelayedWork],
               pr_cycles = snd r\<rparr>)"

subsection \<open>Sequences of locked sections\<close>

text \<open>
  \<open>fwk_ec_create_console_log\<close> allocates the zeroed storage and sets
  \<open>head = tail = 0\<close>. It does not touch the flag of \<open>dev_info_once\<close>.
\<close>

definition init_debugfs :: debugfs where
  "init_debugfs = \<lparr>log_buffer = \<lparr>buf = (\<lambda>_. 0), head = 0, tail = 0\<rparr>\<rparr>"

text \<open>
  The cursors are inside the storage, and the bytes the buffer holds, oldest first.
\<close>

definition cursors_ok :: "int \<Rightarrow> circ_buf \<Rightarrow> bool" where
  "cursors_ok sz cb = (0 \<le> head cb \<and> head cb < sz \<and> 0 \<le> tail cb \<and> tail cb < sz)"

definition contents :: "int \<Rightarrow> circ_buf \<Rightarrow> u8 list" where
  "contents sz cb =
     map (\<lambda>i. buf cb ((tail cb + int i) mod sz))
       [0..<nat (CIRC_CNT (head cb) (tail cb) sz)]"

text \<open>
  One pass of the body of the inner loop: store \<open>b\<close> at \<open>head\<close> and advance \<open>head\<close>.
\<close>

definition store_byte :: "int \<Rightarrow> u8 \<Rightarrow> circ_buf \<Rightarrow> circ_buf" where
  "store_byte sz b cb = cb\<lparr>buf := (buf cb)(head cb := b), head := CIRC_ADD (head cb) sz 1\<rparr>"

text \<open>
  The bytes a response offers to the buffer: of the \<open>ret\<close> bytes received, those from
  \<open>idx\<close> up to, and without, the first terminator \<open>'\0'\<close>.
\<close>

definition payload :: "int \<Rightarrow> (nat \<Rightarrow> u8) \<Rightarrow> nat \<Rightarrow> u8 list" where
  "payload ret ec_buffer idx = takeWhile (\<lambda>b. b \<noteq> 0) (map ec_buffer [idx..<nat ret])"

lemma payload_first:
  "0 < ret \<Longrightarrow> ec_buffer 0 \<noteq> 0 \<Longrightarrow>
   payload ret ec_buffer 0 = ec_buffer 0 # payload ret ec_buffer 1"
  by (simp add: payload_def upt_conv_Cons)

text \<open>
  What a cycle is to append, in the words of the spec (4.1 and 4.2, steps 3 to 5),
  for a buffer with \<open>s\<close> free slots and the responses \<open>ec n\<close>, \<open>ec (n + 1)\<close>, \<dots> of
  the read commands still to come. If the free space is exhausted the cycle stops. A
  transport error, a zero-length response or a response whose first byte is the
  terminator also stops it. Otherwise \<open>append\<close> copies as many bytes of the response as
  fit, that is the first \<open>min(k, s)\<close> of the \<open>k\<close> bytes before the terminator, the free
  space goes down by that number, and the cycle goes on with the next response. The
  result lists the bytes accepted by each append.
\<close>

function accepted_chunks :: "nat \<Rightarrow> (nat \<Rightarrow> xfer) \<Rightarrow> nat \<Rightarrow> u8 list list" where
  "accepted_chunks s ec n =
     (if s = 0 then []
      else if fst (ec n) < 0 then []
      else if fst (ec n) = 0 \<or> snd (ec n) 0 = 0 then []
      else take s (payload (fst (ec n)) (snd (ec n)) 0) #
           accepted_chunks (s - min (length (payload (fst (ec n)) (snd (ec n)) 0)) s) ec (n + 1))"
  by pat_completeness auto
termination
proof (relation "measure (\<lambda>(s, ec, n). s)", goal_cases)
  case 1
  show ?case by simp
next
  case (2 s ec n)
  then have "payload (fst (ec n)) (snd (ec n)) 0 =
      snd (ec n) 0 # payload (fst (ec n)) (snd (ec n)) 1"
    by (intro payload_first) auto
  with 2 show ?case
    by simp
qed

declare accepted_chunks.simps [simp del]

text \<open>
  Every access to the buffer happens under \<open>log_mutex\<close>, so an execution of the
  driver on one device is a sequence of locked sections: cycles of the work item, and
  calls of the reader that find the mutex free. A reader that finds the buffer empty
  and goes to sleep has changed nothing; what it does after waking is a later \<open>Read\<close>
  of the sequence. \<open>run\<close> starts with the flag \<open>once\<close> as it finds it and returns the
  final state of the device, all bytes appended and all bytes read, each in order.
\<close>

datatype op = Work ec_transport | Read bool nat nat

fun run :: "int \<Rightarrow> op list \<Rightarrow> bool \<Rightarrow> debugfs \<Rightarrow> debugfs \<times> u8 list \<times> u8 list" where
  "run sz [] once d = (d, [], [])"
| "run sz (Work ec # ops) once d =
     (let w = fwk_ec_console_log_work sz ec once d;
          r = run sz ops (wr_once w) (wr_state w)
      in (fst r, wr_appended w @ fst (snd r), snd (snd r)))"
| "run sz (Read nonblock count writable # ops) once d =
     (case fwk_ec_console_log_read sz nonblock count writable [] (log_buffer d) of
        None \<Rightarrow> run sz ops once d
      | Some rr \<Rightarrow>
          let r = run sz ops once (d\<lparr>log_buffer := rr_cb rr\<rparr>)
          in (fst r, fst (snd r), rr_data rr @ snd (snd r)))"

text \<open>
  One process drives several device instances, each with its own buffer and mutex, and
  all with the one flag of \<open>dev_info_once\<close>. An execution of the process is a sequence
  of locked sections, each on the instance named with it. \<open>process_cycles\<close> returns
  the results of all the cycles of all the instances, in the order they ran.
\<close>

fun process_cycles ::
  "int \<Rightarrow> (nat \<times> op) list \<Rightarrow> bool \<Rightarrow> (nat \<Rightarrow> debugfs) \<Rightarrow> work_result list" where
  "process_cycles sz [] once devs = []"
| "process_cycles sz ((i, Work ec) # xs) once devs =
     (let w = fwk_ec_console_log_work sz ec once (devs i)
      in w # process_cycles sz xs (wr_once w) (devs(i := wr_state w)))"
| "process_cycles sz ((i, Read nonblock count writable) # xs) once devs =
     (case fwk_ec_console_log_read sz nonblock count writable [] (log_buffer (devs i)) of
        None \<Rightarrow> process_cycles sz xs once devs
      | Some rr \<Rightarrow>
          process_cycles sz xs once (devs(i := (devs i)\<lparr>log_buffer := rr_cb rr\<rparr>)))"

text \<open>
  A transport for concrete runs: the snapshot succeeds, the first read command of the
  cycle returns the bytes \<open>xs\<close>, every later one reports that nothing is left.
\<close>

definition ec_holding :: "u8 list \<Rightarrow> ec_transport" where
  "ec_holding xs =
     \<lparr>snapshot_ret = 0,
      read_resp = (\<lambda>n. if n = 0
                         then (int (length xs), (\<lambda>i. if i < length xs then xs ! i else 0))
                         else (0, (\<lambda>_. 0)))\<rparr>"

section \<open>Arithmetic of the cursors\<close>

lemma mask_mod: "sz = 2 ^ k \<Longrightarrow> (x::int) AND (sz - 1) = x mod sz"
  by (simp flip: mask_eq_exp_minus_1 take_bit_eq_mask add: take_bit_eq_mod)

lemma LOG_SIZE_pow2: "LOG_SIZE = 2 ^ LOG_SHIFT"
  by (simp add: LOG_SIZE_def)

lemma CIRC_ADD_mod: "sz = 2 ^ k \<Longrightarrow> CIRC_ADD idx sz v = (idx + v) mod sz"
  by (simp add: CIRC_ADD_def mask_mod)

lemma CIRC_CNT_mod: "sz = 2 ^ k \<Longrightarrow> CIRC_CNT h t sz = (h - t) mod sz"
  by (simp add: CIRC_CNT_def mask_mod)

lemma CIRC_SPACE_mod: "sz = 2 ^ k \<Longrightarrow> CIRC_SPACE h t sz = (t - (h + 1)) mod sz"
  by (simp add: CIRC_SPACE_def CIRC_CNT_mod)

lemma pow2_pos: "sz = 2 ^ k \<Longrightarrow> (0::int) < sz"
  by simp

lemma CIRC_CNT_nonneg: "sz = 2 ^ k \<Longrightarrow> 0 \<le> CIRC_CNT h t sz"
  by (simp add: CIRC_CNT_mod)

lemma CIRC_SPACE_nonneg: "sz = 2 ^ k \<Longrightarrow> 0 \<le> CIRC_SPACE h t sz"
  by (simp add: CIRC_SPACE_mod)

lemma mod_wrap:
  fixes x sz :: int
  assumes "0 \<le> x" "x < 2 * sz"
  shows "x mod sz = (if x < sz then x else x - sz)"
proof (cases "x < sz")
  case True
  with assms show ?thesis by simp
next
  case False
  have "x mod sz = (x - sz) mod sz"
    by (simp only: minus_mod_self2)
  also have "\<dots> = x - sz"
    by (rule mod_pos_pos_trivial) (use assms False in linarith)+
  finally show ?thesis using False by simp
qed

lemma mod_wrap_neg:
  fixes x sz :: int
  assumes "- sz \<le> x" "x < sz"
  shows "x mod sz = (if 0 \<le> x then x else x + sz)"
proof (cases "0 \<le> x")
  case True
  with assms show ?thesis by simp
next
  case False
  have "x mod sz = (x + sz) mod sz"
    by (simp only: mod_add_self2)
  also have "\<dots> = x + sz"
    by (rule mod_pos_pos_trivial) (use assms False in linarith)+
  finally show ?thesis using False by simp
qed

lemma CIRC_CNT_cases:
  assumes "sz = 2 ^ k" "cursors_ok sz cb"
  shows "CIRC_CNT (head cb) (tail cb) sz =
           (if tail cb \<le> head cb then head cb - tail cb else head cb - tail cb + sz)"
  using assms mod_wrap_neg [of sz "head cb - tail cb"]
  by (simp add: CIRC_CNT_mod cursors_ok_def)

lemma CIRC_SPACE_cnt:
  assumes "sz = 2 ^ k" "cursors_ok sz cb"
  shows "CIRC_SPACE (head cb) (tail cb) sz = sz - 1 - CIRC_CNT (head cb) (tail cb) sz"
proof -
  have "- sz \<le> tail cb - (head cb + 1)" "tail cb - (head cb + 1) < sz"
    using assms by (simp_all add: cursors_ok_def)
  from mod_wrap_neg [OF this] show ?thesis
    using assms by (auto simp add: CIRC_SPACE_mod CIRC_CNT_cases cursors_ok_def)
qed

lemma CIRC_CNT_TO_END_min:
  assumes "sz = 2 ^ k" "cursors_ok sz cb"
  shows "CIRC_CNT_TO_END (head cb) (tail cb) sz =
           min (CIRC_CNT (head cb) (tail cb) sz) (sz - tail cb)"
proof -
  have "0 \<le> head cb + (sz - tail cb)" "head cb + (sz - tail cb) < 2 * sz"
    using assms by (simp_all add: cursors_ok_def)
  from mod_wrap [OF this] show ?thesis
    using assms
    by (auto simp add: CIRC_CNT_TO_END_def Let_def mask_mod CIRC_CNT_cases cursors_ok_def min_def)
qed

section \<open>The branches of the reader\<close>

lemma read_empty_woken:
  "CIRC_CNT (head cb) (tail cb) sz = 0 \<Longrightarrow>
   fwk_ec_console_log_read sz False count writable (Woken cb' # ws) cb =
     fwk_ec_console_log_read sz False count writable ws cb'"
  by (simp add: fwk_ec_console_log_read.simps)

lemma read_empty_asleep:
  "CIRC_CNT (head cb) (tail cb) sz = 0 \<Longrightarrow>
   fwk_ec_console_log_read sz False count writable [] cb = None"
  by (simp add: fwk_ec_console_log_read.simps)

lemma read_empty_interrupted:
  "CIRC_CNT (head cb) (tail cb) sz = 0 \<Longrightarrow>
   fwk_ec_console_log_read sz False count writable (Interrupted # ws) cb =
     Some \<lparr>rr_ret = Inl ERESTARTSYS, rr_data = [], rr_cb = cb\<rparr>"
  by (simp add: fwk_ec_console_log_read.simps)

lemma read_nonempty:
  "CIRC_CNT (head cb) (tail cb) sz \<noteq> 0 \<Longrightarrow>
   fwk_ec_console_log_read sz nonblock count writable ws cb =
     (let ret = min (nat (CIRC_CNT_TO_END (head cb) (tail cb) sz)) count in
      if copy_to_user writable ret \<noteq> 0
      then Some \<lparr>rr_ret = Inl EFAULT, rr_data = [], rr_cb = cb\<rparr>
      else Some \<lparr>rr_ret = Inr ret,
                 rr_data = map (\<lambda>i. buf cb (tail cb + int i)) [0..<ret],
                 rr_cb = cb\<lparr>tail := CIRC_ADD (tail cb) sz (int ret)\<rparr>\<rparr>)"
  by (simp add: fwk_ec_console_log_read.simps)

lemma read_empty_nonblock:
  "CIRC_CNT (head cb) (tail cb) sz = 0 \<Longrightarrow>
   fwk_ec_console_log_read sz True count writable ws cb =
     Some \<lparr>rr_ret = Inl EAGAIN, rr_data = [], rr_cb = cb\<rparr>"
  by (simp add: fwk_ec_console_log_read.simps)

section \<open>Invariants of the two loops and of the drain\<close>

lemma tail_plus_count:
  assumes "sz = 2 ^ k" "cursors_ok sz cb"
  shows "(tail cb + CIRC_CNT (head cb) (tail cb) sz) mod sz = head cb"
proof -
  have "0 \<le> tail cb + CIRC_CNT (head cb) (tail cb) sz"
       "tail cb + CIRC_CNT (head cb) (tail cb) sz < 2 * sz"
    using assms by (auto simp add: CIRC_CNT_cases cursors_ok_def)
  from mod_wrap [OF this] show ?thesis
    using assms by (auto simp add: CIRC_CNT_cases cursors_ok_def)
qed

lemma valid_index_not_head:
  assumes "sz = 2 ^ k" "cursors_ok sz cb" "0 \<le> i" "i < CIRC_CNT (head cb) (tail cb) sz"
  shows "(tail cb + i) mod sz \<noteq> head cb"
proof -
  have "0 \<le> tail cb + i" "tail cb + i < 2 * sz"
    using assms by (auto simp add: CIRC_CNT_cases cursors_ok_def split: if_splits)
  from mod_wrap [OF this] show ?thesis
    using assms by (auto simp add: CIRC_CNT_cases cursors_ok_def split: if_splits)
qed

lemma store_byte_inv:
  assumes "sz = 2 ^ k" "cursors_ok sz cb" "0 < CIRC_SPACE (head cb) (tail cb) sz"
  shows "cursors_ok sz (store_byte sz b cb)"
    and "tail (store_byte sz b cb) = tail cb"
    and "CIRC_CNT (head (store_byte sz b cb)) (tail (store_byte sz b cb)) sz =
           CIRC_CNT (head cb) (tail cb) sz + 1"
    and "CIRC_SPACE (head (store_byte sz b cb)) (tail (store_byte sz b cb)) sz =
           CIRC_SPACE (head cb) (tail cb) sz - 1"
    and "contents sz (store_byte sz b cb) = contents sz cb @ [b]"
proof -
  let ?cb' = "store_byte sz b cb"
  let ?c = "CIRC_CNT (head cb) (tail cb) sz"
  have sz: "0 < sz" using assms(1) by simp
  have h': "head ?cb' = (head cb + 1) mod sz"
    using assms(1) by (simp add: store_byte_def CIRC_ADD_mod)
  have t': "tail ?cb' = tail cb"
    by (simp add: store_byte_def)
  show ok': "cursors_ok sz ?cb'"
    using assms(2) sz by (simp add: cursors_ok_def h' t')
  show "tail ?cb' = tail cb" by (rule t')
  have room: "?c < sz - 1"
    using assms by (simp add: CIRC_SPACE_cnt)
  have "0 \<le> head cb + 1" "head cb + 1 < 2 * sz"
    using assms(2) by (auto simp add: cursors_ok_def)
  from mod_wrap [OF this] have h'': "head ?cb' = (if head cb + 1 < sz then head cb + 1 else head cb + 1 - sz)"
    by (simp add: h')
  show cnt': "CIRC_CNT (head ?cb') (tail ?cb') sz = ?c + 1"
    using room assms(2) CIRC_CNT_cases [OF assms(1) ok'] CIRC_CNT_cases [OF assms(1,2)]
    by (auto simp add: t' h'' cursors_ok_def split: if_splits)
  show "CIRC_SPACE (head ?cb') (tail ?cb') sz = CIRC_SPACE (head cb) (tail cb) sz - 1"
    using cnt' by (simp add: CIRC_SPACE_cnt [OF assms(1) ok'] CIRC_SPACE_cnt [OF assms(1,2)])
  have c0: "0 \<le> ?c" using assms(1) by (rule CIRC_CNT_nonneg)
  then have upt: "[0..<nat (?c + 1)] = [0..<nat ?c] @ [nat ?c]"
    by (simp add: nat_add_distrib)
  have old: "buf ?cb' ((tail cb + int i) mod sz) = buf cb ((tail cb + int i) mod sz)"
    if "i < nat ?c" for i
    using valid_index_not_head [OF assms(1,2), of "int i"] that
    by (simp add: store_byte_def)
  have new: "buf ?cb' ((tail cb + int (nat ?c)) mod sz) = b"
    using tail_plus_count [OF assms(1,2)] c0 by (simp add: store_byte_def)
  have cnt'': "CIRC_CNT (head ?cb') (tail cb) sz = ?c + 1"
    using cnt' by (simp add: t')
  have "contents sz ?cb' =
          map (\<lambda>i. buf ?cb' ((tail cb + int i) mod sz)) ([0..<nat ?c] @ [nat ?c])"
    by (simp only: contents_def t' cnt'' upt)
  also have "\<dots> = map (\<lambda>i. buf cb ((tail cb + int i) mod sz)) [0..<nat ?c] @ [b]"
    using old new by simp
  finally show "contents sz ?cb' = contents sz cb @ [b]"
    by (simp only: contents_def)
qed

lemma payload_step:
  "int idx < ret \<Longrightarrow> ec_buffer idx \<noteq> 0 \<Longrightarrow>
   payload ret ec_buffer idx = ec_buffer idx # payload ret ec_buffer (idx + 1)"
  by (simp add: payload_def upt_conv_Cons)

lemma payload_stop:
  "\<not> (int idx < ret \<and> ec_buffer idx \<noteq> 0) \<Longrightarrow> payload ret ec_buffer idx = []"
  by (cases "int idx < ret") (simp_all add: payload_def upt_conv_Cons)

lemma copy_loop_step:
  "int idx < ret \<Longrightarrow> ec_buffer idx \<noteq> 0 \<Longrightarrow> 0 < buf_space \<Longrightarrow>
   copy_loop sz ret ec_buffer idx cb buf_space =
     copy_loop sz ret ec_buffer (idx + 1) (store_byte sz (ec_buffer idx) cb) (buf_space - 1)"
  by (subst copy_loop.simps) (simp add: store_byte_def)

lemma copy_loop_stop:
  "\<not> (int idx < ret \<and> ec_buffer idx \<noteq> 0 \<and> 0 < buf_space) \<Longrightarrow>
   copy_loop sz ret ec_buffer idx cb buf_space = (cb, idx, buf_space)"
  by (subst copy_loop.simps) auto

lemma copy_loop_inv:
  assumes "sz = 2 ^ k"
    and "cursors_ok sz cb"
    and "buf_space = nat (CIRC_SPACE (head cb) (tail cb) sz)"
    and "copy_loop sz ret ec_buffer idx cb buf_space = (cb', idx', bs')"
  shows "cursors_ok sz cb' \<and> tail cb' = tail cb \<and>
         bs' = nat (CIRC_SPACE (head cb') (tail cb') sz) \<and>
         idx' = idx + min (length (payload ret ec_buffer idx)) buf_space \<and>
         bs' = buf_space - min (length (payload ret ec_buffer idx)) buf_space \<and>
         contents sz cb' = contents sz cb @ take buf_space (payload ret ec_buffer idx) \<and>
         map ec_buffer [idx..<idx'] = take buf_space (payload ret ec_buffer idx)"
  using assms
proof (induction sz ret ec_buffer idx cb buf_space rule: copy_loop.induct)
  case (1 sz ret ec_buffer idx cb buf_space)
  show ?case
  proof (cases "int idx < ret \<and> ec_buffer idx \<noteq> 0 \<and> 0 < buf_space")
    case False
    with "1.prems"(4) have res: "cb' = cb" "idx' = idx" "bs' = buf_space"
      by (simp_all add: copy_loop_stop)
    from False have "payload ret ec_buffer idx = [] \<or> buf_space = 0"
      using payload_stop [of idx ret ec_buffer] by auto
    with res "1.prems"(2,3) show ?thesis
      by auto
  next
    case True
    let ?b = "ec_buffer idx"
    let ?cb1 = "store_byte sz ?b cb"
    from True "1.prems"(3) have room: "0 < CIRC_SPACE (head cb) (tail cb) sz"
      by simp
    note sb = store_byte_inv [OF "1.prems"(1,2) room, of ?b]
    have bs1: "buf_space - 1 = nat (CIRC_SPACE (head ?cb1) (tail ?cb1) sz)"
      using "1.prems"(3) by (simp add: sb(4))
    have run1: "copy_loop sz ret ec_buffer (idx + 1) ?cb1 (buf_space - 1) = (cb', idx', bs')"
      using True "1.prems"(4) by (simp add: copy_loop_step)
    have IH: "cursors_ok sz cb' \<and> tail cb' = tail ?cb1 \<and>
         bs' = nat (CIRC_SPACE (head cb') (tail cb') sz) \<and>
         idx' = (idx + 1) + min (length (payload ret ec_buffer (idx + 1))) (buf_space - 1) \<and>
         bs' = (buf_space - 1) - min (length (payload ret ec_buffer (idx + 1))) (buf_space - 1) \<and>
         contents sz cb' = contents sz ?cb1 @ take (buf_space - 1) (payload ret ec_buffer (idx + 1)) \<and>
         map ec_buffer [idx + 1..<idx'] = take (buf_space - 1) (payload ret ec_buffer (idx + 1))"
      by (rule "1.IH" [OF True, folded store_byte_def, OF "1.prems"(1) sb(1) bs1 run1])
    have pl: "payload ret ec_buffer idx = ?b # payload ret ec_buffer (idx + 1)"
      using True by (simp add: payload_step)
    from True obtain m where m: "buf_space = Suc m"
      by (cases buf_space) auto
    let ?m = "min (length (payload ret ec_buffer (idx + 1))) (buf_space - 1)"
    have mn: "min (length (payload ret ec_buffer idx)) buf_space = Suc ?m"
      by (simp add: pl m)
    have tk: "take buf_space (payload ret ec_buffer idx) =
                ?b # take (buf_space - 1) (payload ret ec_buffer (idx + 1))"
      by (simp add: pl m)
    from IH have i1: "cursors_ok sz cb'"
      and i2: "tail cb' = tail ?cb1"
      and i3: "bs' = nat (CIRC_SPACE (head cb') (tail cb') sz)"
      and i4: "idx' = (idx + 1) + ?m"
      and i5: "bs' = (buf_space - 1) - ?m"
      and i6: "contents sz cb' =
                 contents sz ?cb1 @ take (buf_space - 1) (payload ret ec_buffer (idx + 1))"
      and i7: "map ec_buffer [idx + 1..<idx'] =
                 take (buf_space - 1) (payload ret ec_buffer (idx + 1))"
      by blast+
    have c2: "tail cb' = tail cb"
      using i2 sb(2) by simp
    have c4: "idx' = idx + min (length (payload ret ec_buffer idx)) buf_space"
      using i4 by (simp add: mn)
    have c5: "bs' = buf_space - min (length (payload ret ec_buffer idx)) buf_space"
      using i5 by (simp add: mn)
    have c6: "contents sz cb' = contents sz cb @ take buf_space (payload ret ec_buffer idx)"
      using i6 by (simp add: tk sb(5))
    have "idx < idx'"
      using i4 by simp
    then have "[idx..<idx'] = idx # [idx + 1..<idx']"
      by (simp add: upt_conv_Cons)
    then have c7: "map ec_buffer [idx..<idx'] = take buf_space (payload ret ec_buffer idx)"
      using i7 by (simp add: tk)
    from i1 c2 i3 c4 c5 c6 c7 show ?thesis
      by blast
  qed
qed

lemma log_work_loop_nospace:
  "log_work_loop sz ec n cb 0 once =
     \<lparr>lr_cb = cb, lr_once = True, lr_events = (if once then [] else [DevInfo]),
      lr_appended = [], lr_stop = NoSpace\<rparr>"
  by (subst log_work_loop.simps) simp

lemma log_work_loop_error:
  "0 < buf_space \<Longrightarrow> fst (ec n) < 0 \<Longrightarrow>
   log_work_loop sz ec n cb buf_space once =
     \<lparr>lr_cb = cb, lr_once = once, lr_events = [XferRead],
      lr_appended = [], lr_stop = XferError\<rparr>"
  by (subst log_work_loop.simps) (simp add: Let_def)

lemma log_work_loop_nodata:
  "0 < buf_space \<Longrightarrow> \<not> fst (ec n) < 0 \<Longrightarrow> fst (ec n) = 0 \<or> snd (ec n) 0 = 0 \<Longrightarrow>
   log_work_loop sz ec n cb buf_space once =
     \<lparr>lr_cb = cb, lr_once = once, lr_events = [XferRead],
      lr_appended = [], lr_stop = NoData\<rparr>"
  by (subst log_work_loop.simps) (auto simp add: Let_def)

lemma log_work_loop_more:
  "0 < buf_space \<Longrightarrow> \<not> fst (ec n) < 0 \<Longrightarrow> \<not> (fst (ec n) = 0 \<or> snd (ec n) 0 = 0) \<Longrightarrow>
   copy_loop sz (fst (ec n)) (snd (ec n)) 0 cb buf_space = (cb', idx', bs') \<Longrightarrow>
   log_work_loop sz ec n cb buf_space once =
     (log_work_loop sz ec (n + 1) cb' bs' once)
       \<lparr>lr_events := XferRead # WakeUp # lr_events (log_work_loop sz ec (n + 1) cb' bs' once),
        lr_appended := map (snd (ec n)) [0..<idx'] @
                       lr_appended (log_work_loop sz ec (n + 1) cb' bs' once)\<rparr>"
  by (subst log_work_loop.simps) (auto simp add: Let_def)

lemma log_work_loop_cases:
  obtains (nospace) "buf_space = 0"
  | (error) "0 < buf_space" "fst (ec n) < 0"
  | (nodata) "0 < buf_space" "\<not> fst (ec n) < 0" "fst (ec n) = 0 \<or> snd (ec n) 0 = 0"
  | (more) cb' idx' bs' where "0 < buf_space" "\<not> fst (ec n) < 0"
      "\<not> (fst (ec n) = 0 \<or> snd (ec n) 0 = 0)"
      "copy_loop sz (fst (ec n)) (snd (ec n)) 0 cb buf_space = (cb', idx', bs')"
  by (cases "copy_loop sz (fst (ec n)) (snd (ec n)) 0 cb buf_space") fastforce

lemma log_work_loop_inv:
  assumes "sz = 2 ^ k"
    and "cursors_ok sz cb"
    and "buf_space = nat (CIRC_SPACE (head cb) (tail cb) sz)"
  shows "cursors_ok sz (lr_cb (log_work_loop sz ec n cb buf_space once)) \<and>
         tail (lr_cb (log_work_loop sz ec n cb buf_space once)) = tail cb \<and>
         contents sz (lr_cb (log_work_loop sz ec n cb buf_space once)) =
           contents sz cb @ lr_appended (log_work_loop sz ec n cb buf_space once)"
  using assms
proof (induction sz ec n cb buf_space once rule: log_work_loop.induct)
  case (1 sz ec n cb buf_space once)
  show ?case
  proof (cases rule: log_work_loop_cases
      [where buf_space = buf_space and ec = ec and n = n and sz = sz and cb = cb])
    case nospace
    with "1.prems"(2) show ?thesis
      by (simp add: log_work_loop_nospace)
  next
    case error
    with "1.prems"(2) show ?thesis
      by (simp add: log_work_loop_error)
  next
    case nodata
    with "1.prems"(2) show ?thesis
      by (simp add: log_work_loop_nodata)
  next
    case (more cb' idx' bs')
    note ci = copy_loop_inv [OF "1.prems" more(4)]
    from ci have ok': "cursors_ok sz cb'"
      and t': "tail cb' = tail cb"
      and bs': "bs' = nat (CIRC_SPACE (head cb') (tail cb') sz)"
      by blast+
    from ci have "contents sz cb' =
        contents sz cb @ take buf_space (payload (fst (ec n)) (snd (ec n)) 0)"
      and "map (snd (ec n)) [0..<idx'] = take buf_space (payload (fst (ec n)) (snd (ec n)) 0)"
      by blast+
    then have c': "contents sz cb' = contents sz cb @ map (snd (ec n)) [0..<idx']"
      by simp
    from more(1) have nz: "buf_space \<noteq> 0"
      by simp
    have "cursors_ok sz (lr_cb (log_work_loop sz ec (n + 1) cb' bs' once)) \<and>
          tail (lr_cb (log_work_loop sz ec (n + 1) cb' bs' once)) = tail cb' \<and>
          contents sz (lr_cb (log_work_loop sz ec (n + 1) cb' bs' once)) =
            contents sz cb' @ lr_appended (log_work_loop sz ec (n + 1) cb' bs' once)"
      using "1.IH" [OF nz refl refl more(2,3) refl] more(4) "1.prems"(1) ok' bs'
      by simp
    then show ?thesis
      by (simp add: log_work_loop_more [where ec = ec and n = n, OF more] t' c')
  qed
qed

lemma log_work_loop_once:
  "lr_once (log_work_loop sz ec n cb buf_space once) =
     (once \<or> lr_stop (log_work_loop sz ec n cb buf_space once) = NoSpace) \<and>
   filter (\<lambda>e. e = DevInfo) (lr_events (log_work_loop sz ec n cb buf_space once)) =
     (if lr_stop (log_work_loop sz ec n cb buf_space once) = NoSpace \<and> \<not> once
      then [DevInfo] else [])"
proof (induction sz ec n cb buf_space once rule: log_work_loop.induct)
  case (1 sz ec n cb buf_space once)
  show ?case
  proof (cases rule: log_work_loop_cases
      [where buf_space = buf_space and ec = ec and n = n and sz = sz and cb = cb])
    case nospace
    then show ?thesis
      by (simp add: log_work_loop_nospace)
  next
    case error
    then show ?thesis
      by (simp add: log_work_loop_error)
  next
    case nodata
    then show ?thesis
      by (simp add: log_work_loop_nodata)
  next
    case (more cb' idx' bs')
    from more(1) have nz: "buf_space \<noteq> 0"
      by simp
    from "1.IH" [OF nz refl refl more(2,3) refl] more(4) show ?thesis
      by (simp add: log_work_loop_more [where ec = ec and n = n, OF more])
  qed
qed

lemma log_work_loop_chunks:
  assumes "sz = 2 ^ k"
    and "cursors_ok sz cb"
    and "buf_space = nat (CIRC_SPACE (head cb) (tail cb) sz)"
  shows "lr_appended (log_work_loop sz ec n cb buf_space once) =
           concat (accepted_chunks buf_space ec n)"
  using assms
proof (induction sz ec n cb buf_space once rule: log_work_loop.induct)
  case (1 sz ec n cb buf_space once)
  show ?case
  proof (cases rule: log_work_loop_cases
      [where buf_space = buf_space and ec = ec and n = n and sz = sz and cb = cb])
    case nospace
    then show ?thesis
      by (subst accepted_chunks.simps) (simp add: log_work_loop_nospace)
  next
    case error
    then show ?thesis
      by (subst accepted_chunks.simps) (simp add: log_work_loop_error)
  next
    case nodata
    then show ?thesis
      by (subst accepted_chunks.simps) (auto simp add: log_work_loop_nodata)
  next
    case (more cb' idx' bs')
    let ?p = "payload (fst (ec n)) (snd (ec n)) 0"
    note ci = copy_loop_inv [OF "1.prems" more(4)]
    from ci have ok': "cursors_ok sz cb'"
      and bs': "bs' = nat (CIRC_SPACE (head cb') (tail cb') sz)"
      and bs'': "bs' = buf_space - min (length ?p) buf_space"
      and chunk: "map (snd (ec n)) [0..<idx'] = take buf_space ?p"
      by blast+
    from more(1) have nz: "buf_space \<noteq> 0"
      by simp
    have ih: "lr_appended (log_work_loop sz ec (n + 1) cb' bs' once) =
        concat (accepted_chunks bs' ec (n + 1))"
      using "1.IH" [OF nz refl refl more(2,3) refl] more(4) "1.prems"(1) ok' bs'
      by simp
    have "accepted_chunks buf_space ec n = take buf_space ?p # accepted_chunks bs' ec (n + 1)"
      using more(1,2,3) by (subst accepted_chunks.simps) (simp add: bs'')
    then show ?thesis
      using ih by (simp add: log_work_loop_more [where ec = ec and n = n, OF more] chunk)
  qed
qed

lemma log_work_loop_nospace_iff:
  assumes "sz = 2 ^ k"
    and "cursors_ok sz cb"
    and "buf_space = nat (CIRC_SPACE (head cb) (tail cb) sz)"
  shows "(lr_stop (log_work_loop sz ec n cb buf_space once) = NoSpace) =
         (CIRC_SPACE (head (lr_cb (log_work_loop sz ec n cb buf_space once)))
            (tail (lr_cb (log_work_loop sz ec n cb buf_space once))) sz = 0)"
  using assms
proof (induction sz ec n cb buf_space once rule: log_work_loop.induct)
  case (1 sz ec n cb buf_space once)
  have nn: "0 \<le> CIRC_SPACE (head cb) (tail cb) sz"
    by (rule CIRC_SPACE_nonneg [OF "1.prems"(1)])
  show ?case
  proof (cases rule: log_work_loop_cases
      [where buf_space = buf_space and ec = ec and n = n and sz = sz and cb = cb])
    case nospace
    with "1.prems"(3) nn show ?thesis
      by (simp add: log_work_loop_nospace)
  next
    case error
    with "1.prems"(3) show ?thesis
      by (simp add: log_work_loop_error)
  next
    case nodata
    with "1.prems"(3) show ?thesis
      by (simp add: log_work_loop_nodata)
  next
    case (more cb' idx' bs')
    note ci = copy_loop_inv [OF "1.prems" more(4)]
    from ci have ok': "cursors_ok sz cb'"
      and bs': "bs' = nat (CIRC_SPACE (head cb') (tail cb') sz)"
      by blast+
    from more(1) have nz: "buf_space \<noteq> 0"
      by simp
    have "(lr_stop (log_work_loop sz ec (n + 1) cb' bs' once) = NoSpace) =
        (CIRC_SPACE (head (lr_cb (log_work_loop sz ec (n + 1) cb' bs' once)))
           (tail (lr_cb (log_work_loop sz ec (n + 1) cb' bs' once))) sz = 0)"
      using "1.IH" [OF nz refl refl more(2,3) refl] more(4) "1.prems"(1) ok' bs'
      by simp
    then show ?thesis
      by (simp add: log_work_loop_more [where ec = ec and n = n, OF more])
  qed
qed

lemma read_success:
  assumes "CIRC_CNT (head cb) (tail cb) sz \<noteq> 0"
    and "fwk_ec_console_log_read sz nonblock count writable ws cb = Some rr"
    and "rr_ret rr = Inr m"
  shows "m = min (nat (CIRC_CNT_TO_END (head cb) (tail cb) sz)) count"
    and "rr_data rr = map (\<lambda>i. buf cb (tail cb + int i)) [0..<m]"
    and "rr_cb rr = cb\<lparr>tail := CIRC_ADD (tail cb) sz (int m)\<rparr>"
  using assms by (auto simp add: read_nonempty Let_def split: if_splits)

lemma drain_inv:
  assumes "sz = 2 ^ k"
    and "cursors_ok sz cb"
    and "int m \<le> CIRC_CNT_TO_END (head cb) (tail cb) sz"
  shows "tail cb + int m \<le> sz"
    and "int m \<le> CIRC_CNT (head cb) (tail cb) sz"
    and "cursors_ok sz (cb\<lparr>tail := CIRC_ADD (tail cb) sz (int m)\<rparr>)"
    and "CIRC_CNT (head cb) (CIRC_ADD (tail cb) sz (int m)) sz =
           CIRC_CNT (head cb) (tail cb) sz - int m"
    and "map (\<lambda>i. buf cb (tail cb + int i)) [0..<m] = take m (contents sz cb)"
    and "contents sz (cb\<lparr>tail := CIRC_ADD (tail cb) sz (int m)\<rparr>) = drop m (contents sz cb)"
proof -
  let ?c = "CIRC_CNT (head cb) (tail cb) sz"
  let ?t' = "CIRC_ADD (tail cb) sz (int m)"
  have sz: "0 < sz" using assms(1) by simp
  from assms(3) show fits: "tail cb + int m \<le> sz" and le: "int m \<le> ?c"
    by (simp_all add: CIRC_CNT_TO_END_min [OF assms(1,2)])
  have t': "?t' = (tail cb + int m) mod sz"
    by (rule CIRC_ADD_mod [OF assms(1)])
  show ok': "cursors_ok sz (cb\<lparr>tail := ?t'\<rparr>)"
    using assms(2) sz by (simp add: cursors_ok_def t')
  have c_lt: "?c < sz" "0 \<le> ?c"
    using sz by (simp_all add: CIRC_CNT_mod [OF assms(1)])
  note cnt_mod = CIRC_CNT_mod [OF assms(1)]
  have "CIRC_CNT (head cb) ?t' sz = (head cb - (tail cb + int m)) mod sz"
    by (simp add: cnt_mod t' mod_diff_right_eq)
  also have "\<dots> = ((head cb - tail cb) mod sz - int m) mod sz"
    by (simp add: mod_diff_left_eq algebra_simps)
  also have "\<dots> = (?c - int m) mod sz"
    by (simp add: cnt_mod)
  also have "\<dots> = ?c - int m"
    using le c_lt by simp
  finally show cnt': "CIRC_CNT (head cb) ?t' sz = ?c - int m" .
  have m_le: "m \<le> nat ?c"
    using le by simp
  have "take m (contents sz cb) = map (\<lambda>i. buf cb ((tail cb + int i) mod sz)) [0..<m]"
    using m_le by (simp add: contents_def take_map min_def)
  also have "\<dots> = map (\<lambda>i. buf cb (tail cb + int i)) [0..<m]"
  proof (rule map_cong [OF refl])
    fix i assume "i \<in> set [0..<m]"
    then have "0 \<le> tail cb + int i" "tail cb + int i < sz"
      using fits assms(2) by (simp_all add: cursors_ok_def)
    then show "buf cb ((tail cb + int i) mod sz) = buf cb (tail cb + int i)"
      by simp
  qed
  finally show "map (\<lambda>i. buf cb (tail cb + int i)) [0..<m] = take m (contents sz cb)"
    by simp
  have shift: "(?t' + int i) mod sz = (tail cb + int (m + i)) mod sz" for i
    by (simp add: t' mod_add_left_eq add.assoc)
  have "contents sz (cb\<lparr>tail := ?t'\<rparr>) =
          map (\<lambda>i. buf cb ((tail cb + int (m + i)) mod sz)) [0..<nat (?c - int m)]"
    by (simp add: contents_def cnt' shift del: of_nat_add)
  also have "\<dots> = map (\<lambda>i. buf cb ((tail cb + int i) mod sz)) (map (\<lambda>i. m + i) [0..<nat ?c - m])"
  proof -
    have "nat (?c - int m) = nat ?c - m"
      using le c_lt by linarith
    then show ?thesis
      by (simp add: comp_def del: of_nat_add)
  qed
  also have "map (\<lambda>i. m + i) [0..<nat ?c - m] = [m..<nat ?c]"
    using m_le map_add_upt [of m "nat ?c - m"] by (simp add: add.commute)
  also have "map (\<lambda>i. buf cb ((tail cb + int i) mod sz)) [m..<nat ?c] = drop m (contents sz cb)"
    by (simp add: contents_def drop_map)
  finally show "contents sz (cb\<lparr>tail := ?t'\<rparr>) = drop m (contents sz cb)" .
qed

section \<open>Invariants of a cycle, of a read and of their sequences\<close>

lemma work_inv:
  assumes "sz = 2 ^ k"
    and "cursors_ok sz (log_buffer d)"
  shows "cursors_ok sz (log_buffer (wr_state (fwk_ec_console_log_work sz ec once d))) \<and>
         tail (log_buffer (wr_state (fwk_ec_console_log_work sz ec once d))) =
           tail (log_buffer d) \<and>
         contents sz (log_buffer (wr_state (fwk_ec_console_log_work sz ec once d))) =
           contents sz (log_buffer d) @ wr_appended (fwk_ec_console_log_work sz ec once d)"
proof (cases "snapshot_ret ec < 0")
  case True
  with assms(2) show ?thesis
    by (simp add: fwk_ec_console_log_work_def)
next
  case False
  from log_work_loop_inv [OF assms refl, of "read_resp ec" 0 once] False
  show ?thesis
    by (simp add: fwk_ec_console_log_work_def Let_def)
qed

lemma read_step_inv:
  assumes "sz = 2 ^ k"
    and "cursors_ok sz cb"
    and "fwk_ec_console_log_read sz nonblock n writable [] cb = Some rr"
  shows "cursors_ok sz (rr_cb rr) \<and> contents sz cb = rr_data rr @ contents sz (rr_cb rr)"
proof (cases "CIRC_CNT (head cb) (tail cb) sz = 0")
  case True
  show ?thesis
  proof (cases nonblock)
    case True
    with \<open>CIRC_CNT (head cb) (tail cb) sz = 0\<close> assms(2,3) show ?thesis
      by (auto simp add: read_empty_nonblock)
  next
    case False
    with \<open>CIRC_CNT (head cb) (tail cb) sz = 0\<close> assms(3) show ?thesis
      by (simp add: read_empty_asleep)
  qed
next
  case False
  let ?m = "min (nat (CIRC_CNT_TO_END (head cb) (tail cb) sz)) n"
  show ?thesis
  proof (cases "copy_to_user writable ?m \<noteq> 0")
    case True
    with False assms(2,3) show ?thesis
      by (auto simp add: read_nonempty Let_def)
  next
    case ok: False
    with False assms(3)
    have rr: "rr = \<lparr>rr_ret = Inr ?m,
                     rr_data = map (\<lambda>i. buf cb (tail cb + int i)) [0..<?m],
                     rr_cb = cb\<lparr>tail := CIRC_ADD (tail cb) sz (int ?m)\<rparr>\<rparr>"
      by (auto simp add: read_nonempty Let_def)
    have "0 \<le> CIRC_CNT_TO_END (head cb) (tail cb) sz"
      using CIRC_CNT_nonneg [OF assms(1), of "head cb" "tail cb"] assms(2)
      by (simp add: CIRC_CNT_TO_END_min [OF assms(1,2)] cursors_ok_def)
    then have le: "int ?m \<le> CIRC_CNT_TO_END (head cb) (tail cb) sz"
      by simp
    note dr = drain_inv [OF assms(1,2) le]
    from dr(3) dr(5) dr(6) show ?thesis
      by (simp add: rr)
  qed
qed

lemma run_inv:
  assumes "sz = 2 ^ k"
    and "cursors_ok sz (log_buffer d)"
  shows "cursors_ok sz (log_buffer (fst (run sz ops once d))) \<and>
         contents sz (log_buffer d) @ fst (snd (run sz ops once d)) =
           snd (snd (run sz ops once d)) @ contents sz (log_buffer (fst (run sz ops once d)))"
  using assms(2)
proof (induction ops arbitrary: d once)
  case Nil
  then show ?case by simp
next
  case (Cons x ops)
  show ?case
  proof (cases x)
    case (Work ec)
    let ?w = "fwk_ec_console_log_work sz ec once d"
    from work_inv [OF assms(1) Cons.prems, of ec once]
    have ok: "cursors_ok sz (log_buffer (wr_state ?w))"
      and c: "contents sz (log_buffer (wr_state ?w)) =
                contents sz (log_buffer d) @ wr_appended ?w"
      by simp_all
    from Cons.IH [OF ok, of "wr_once ?w"] c Work show ?thesis
      by (simp add: Let_def)
  next
    case (Read nonblock n writable)
    show ?thesis
    proof (cases "fwk_ec_console_log_read sz nonblock n writable [] (log_buffer d)")
      case None
      with Cons.IH [OF Cons.prems, of once] Read show ?thesis
        by simp
    next
      case (Some rr)
      let ?d' = "d\<lparr>log_buffer := rr_cb rr\<rparr>"
      from read_step_inv [OF assms(1) Cons.prems Some]
      have ok: "cursors_ok sz (log_buffer ?d')"
        and c: "contents sz (log_buffer d) = rr_data rr @ contents sz (log_buffer ?d')"
        by simp_all
      from Cons.IH [OF ok, of once] c Some Read show ?thesis
        by (simp add: Let_def)
    qed
  qed
qed

lemma init_cursors_ok: "sz = 2 ^ k \<Longrightarrow> cursors_ok sz (log_buffer init_debugfs)"
  by (simp add: cursors_ok_def init_debugfs_def)

lemma init_contents: "contents sz (log_buffer init_debugfs) = []"
  by (simp add: contents_def init_debugfs_def CIRC_CNT_def)

lemma empty_iff_cursors_equal:
  assumes "sz = 2 ^ k" "cursors_ok sz cb"
  shows "(CIRC_CNT (head cb) (tail cb) sz = 0) = (head cb = tail cb)"
  using assms(2) by (auto simp add: CIRC_CNT_cases [OF assms] cursors_ok_def)

lemma length_contents:
  "sz = 2 ^ k \<Longrightarrow> int (length (contents sz cb)) = CIRC_CNT (head cb) (tail cb) sz"
  by (simp add: contents_def CIRC_CNT_nonneg)

section \<open>The one-shot message\<close>

lemma log_work_loop_events:
  "\<exists>m. lr_events (log_work_loop sz ec n cb buf_space once) =
     concat (replicate m [XferRead, WakeUp]) @
     (case lr_stop (log_work_loop sz ec n cb buf_space once) of
        NoSpace \<Rightarrow> (if once then [] else [DevInfo])
      | XferError \<Rightarrow> [XferRead]
      | NoData \<Rightarrow> [XferRead])"
proof (induction sz ec n cb buf_space once rule: log_work_loop.induct)
  case (1 sz ec n cb buf_space once)
  show ?case
  proof (cases rule: log_work_loop_cases
      [where buf_space = buf_space and ec = ec and n = n and sz = sz and cb = cb])
    case nospace
    then have "lr_events (log_work_loop sz ec n cb buf_space once) =
        concat (replicate 0 [XferRead, WakeUp]) @
        (case lr_stop (log_work_loop sz ec n cb buf_space once) of
           NoSpace \<Rightarrow> (if once then [] else [DevInfo])
         | XferError \<Rightarrow> [XferRead]
         | NoData \<Rightarrow> [XferRead])"
      by (simp add: log_work_loop_nospace)
    then show ?thesis ..
  next
    case error
    then have "lr_events (log_work_loop sz ec n cb buf_space once) =
        concat (replicate 0 [XferRead, WakeUp]) @
        (case lr_stop (log_work_loop sz ec n cb buf_space once) of
           NoSpace \<Rightarrow> (if once then [] else [DevInfo])
         | XferError \<Rightarrow> [XferRead]
         | NoData \<Rightarrow> [XferRead])"
      by (simp add: log_work_loop_error)
    then show ?thesis ..
  next
    case nodata
    then have "lr_events (log_work_loop sz ec n cb buf_space once) =
        concat (replicate 0 [XferRead, WakeUp]) @
        (case lr_stop (log_work_loop sz ec n cb buf_space once) of
           NoSpace \<Rightarrow> (if once then [] else [DevInfo])
         | XferError \<Rightarrow> [XferRead]
         | NoData \<Rightarrow> [XferRead])"
      by (simp add: log_work_loop_nodata)
    then show ?thesis ..
  next
    case (more cb' idx' bs')
    let ?rest = "log_work_loop sz ec (n + 1) cb' bs' once"
    from more(1) have nz: "buf_space \<noteq> 0"
      by simp
    from "1.IH" [OF nz refl refl more(2,3) refl] more(4)
    obtain m where m: "lr_events ?rest =
        concat (replicate m [XferRead, WakeUp]) @
        (case lr_stop ?rest of
           NoSpace \<Rightarrow> (if once then [] else [DevInfo])
         | XferError \<Rightarrow> [XferRead]
         | NoData \<Rightarrow> [XferRead])"
      by auto
    have "lr_events (log_work_loop sz ec n cb buf_space once) =
        concat (replicate (Suc m) [XferRead, WakeUp]) @
        (case lr_stop (log_work_loop sz ec n cb buf_space once) of
           NoSpace \<Rightarrow> (if once then [] else [DevInfo])
         | XferError \<Rightarrow> [XferRead]
         | NoData \<Rightarrow> [XferRead])"
      using m by (simp add: log_work_loop_more [where ec = ec and n = n, OF more]
            split del: if_split)
    then show ?thesis ..
  qed
qed

lemma work_once:
  "wr_once (fwk_ec_console_log_work sz ec once d) =
     (once \<or> wr_stop (fwk_ec_console_log_work sz ec once d) = Some NoSpace)"
  "filter (\<lambda>e. e = DevInfo) (wr_events (fwk_ec_console_log_work sz ec once d)) =
     (if wr_stop (fwk_ec_console_log_work sz ec once d) = Some NoSpace \<and> \<not> once
      then [DevInfo] else [])"
proof -
  let ?r = "log_work_loop sz (read_resp ec) 0 (log_buffer d)
      (nat (CIRC_SPACE (head (log_buffer d)) (tail (log_buffer d)) sz)) once"
  let ?w = "fwk_ec_console_log_work sz ec once d"
  have lo: "lr_once ?r = (once \<or> lr_stop ?r = NoSpace)"
    and le: "filter (\<lambda>e. e = DevInfo) (lr_events ?r) =
          (if lr_stop ?r = NoSpace \<and> \<not> once then [DevInfo] else [])"
    using log_work_loop_once [of sz "read_resp ec" 0 "log_buffer d"
      "nat (CIRC_SPACE (head (log_buffer d)) (tail (log_buffer d)) sz)" once]
    by blast+
  show "wr_once ?w = (once \<or> wr_stop ?w = Some NoSpace)"
  proof (cases "snapshot_ret ec < 0")
    case True
    then show ?thesis
      by (simp add: fwk_ec_console_log_work_def)
  next
    case False
    then have "wr_once ?w = lr_once ?r" "wr_stop ?w = Some (lr_stop ?r)"
      by (simp_all add: fwk_ec_console_log_work_def Let_def)
    then show ?thesis
      by (simp only: lo option.inject)
  qed
  show "filter (\<lambda>e. e = DevInfo) (wr_events ?w) =
     (if wr_stop ?w = Some NoSpace \<and> \<not> once then [DevInfo] else [])"
  proof (cases "snapshot_ret ec < 0")
    case True
    then show ?thesis
      by (simp add: fwk_ec_console_log_work_def)
  next
    case False
    then have "filter (\<lambda>e. e = DevInfo) (wr_events ?w) = filter (\<lambda>e. e = DevInfo) (lr_events ?r)"
      and "wr_stop ?w = Some (lr_stop ?r)"
      by (simp_all add: fwk_ec_console_log_work_def Let_def)
    then show ?thesis
      by (simp only: le option.inject)
  qed
qed

lemma work_devinfo_iff:
  "(DevInfo \<in> set (wr_events (fwk_ec_console_log_work sz ec once d))) =
     (wr_stop (fwk_ec_console_log_work sz ec once d) = Some NoSpace \<and> \<not> once)"
proof -
  have mem: "(DevInfo \<in> set evs) = (filter (\<lambda>e. e = DevInfo) evs \<noteq> [])"
    for evs :: "event list"
    by (induction evs) auto
  have sel: "((if c then [DevInfo] else []) \<noteq> []) = c" for c
    by simp
  show ?thesis
    by (simp only: mem work_once(2) sel)
qed

lemma work_saturated_events:
  assumes "wr_stop (fwk_ec_console_log_work sz ec once d) = Some NoSpace"
  shows "\<exists>m. wr_events (fwk_ec_console_log_work sz ec once d) =
           XferSnapshot # concat (replicate m [XferRead, WakeUp]) @
           (if DevInfo \<in> set (wr_events (fwk_ec_console_log_work sz ec once d))
            then [DevInfo] else []) @
           [ScheduleDelayedWork (LOG_POLL_SEC * 1000)]"
proof -
  let ?bs = "nat (CIRC_SPACE (head (log_buffer d)) (tail (log_buffer d)) sz)"
  let ?r = "log_work_loop sz (read_resp ec) 0 (log_buffer d) ?bs once"
  let ?w = "fwk_ec_console_log_work sz ec once d"
  from assms have ok: "\<not> snapshot_ret ec < 0" and st: "lr_stop ?r = NoSpace"
    by (auto simp add: fwk_ec_console_log_work_def Let_def split: if_splits)
  from log_work_loop_events [of sz "read_resp ec" 0 "log_buffer d" ?bs once] st
  obtain m where "lr_events ?r =
      concat (replicate m [XferRead, WakeUp]) @ (if once then [] else [DevInfo])"
    by auto
  with ok have "wr_events ?w =
      XferSnapshot # concat (replicate m [XferRead, WakeUp]) @
      (if once then [] else [DevInfo]) @ [ScheduleDelayedWork (LOG_POLL_SEC * 1000)]"
    by (simp add: fwk_ec_console_log_work_def Let_def)
  moreover have "(DevInfo \<in> set (wr_events ?w)) = (\<not> once)"
    using assms by (simp add: work_devinfo_iff)
  ultimately have "wr_events ?w =
      XferSnapshot # concat (replicate m [XferRead, WakeUp]) @
      (if DevInfo \<in> set (wr_events ?w) then [DevInfo] else []) @
      [ScheduleDelayedWork (LOG_POLL_SEC * 1000)]"
    by simp
  then show ?thesis ..
qed

lemma work_nospace_iff:
  assumes "sz = 2 ^ k"
    and "cursors_ok sz (log_buffer d)"
  shows "(wr_stop (fwk_ec_console_log_work sz ec once d) = Some NoSpace) =
         (wr_stop (fwk_ec_console_log_work sz ec once d) \<noteq> None \<and>
          CIRC_SPACE (head (log_buffer (wr_state (fwk_ec_console_log_work sz ec once d))))
            (tail (log_buffer (wr_state (fwk_ec_console_log_work sz ec once d)))) sz = 0)"
proof (cases "snapshot_ret ec < 0")
  case True
  then show ?thesis
    by (simp add: fwk_ec_console_log_work_def)
next
  case False
  from log_work_loop_nospace_iff [OF assms refl, of "read_resp ec" 0 once] False
  show ?thesis
    by (simp add: fwk_ec_console_log_work_def Let_def)
qed

lemma process_read:
  "\<exists>devs'. process_cycles sz ((i, Read nonblock count writable) # xs) once devs =
     process_cycles sz xs once devs'"
  by (cases "fwk_ec_console_log_read sz nonblock count writable [] (log_buffer (devs i))")
     auto

lemma process_devinfo:
  "filter (\<lambda>e. e = DevInfo) (concat (map wr_events (process_cycles sz xs once devs))) =
     (if \<not> once \<and> (\<exists>w \<in> set (process_cycles sz xs once devs). wr_stop w = Some NoSpace)
      then [DevInfo] else [])"
proof (induction xs arbitrary: once devs)
  case Nil
  show ?case by simp
next
  case (Cons x xs)
  obtain i o' where x: "x = (i, o')"
    by (cases x)
  show ?case
  proof (cases o')
    case (Read nonblock count writable)
    from process_read [of sz i nonblock count writable xs once devs] obtain devs'
      where eq: "process_cycles sz ((i, Read nonblock count writable) # xs) once devs =
        process_cycles sz xs once devs'"
      by blast
    show ?thesis
      unfolding x Read eq by (rule Cons.IH)
  next
    case (Work ec)
    define w where "w = fwk_ec_console_log_work sz ec once (devs i)"
    define ws' where "ws' = process_cycles sz xs (wr_once w) (devs(i := wr_state w))"
    let ?P = "\<lambda>e. e = DevInfo"
    have eq: "process_cycles sz (x # xs) once devs = w # ws'"
      by (simp add: x Work Let_def w_def ws'_def)
    have ih: "filter ?P (concat (map wr_events ws')) =
        (if \<not> wr_once w \<and> (\<exists>v \<in> set ws'. wr_stop v = Some NoSpace)
         then [DevInfo] else [])"
      unfolding ws'_def by (rule Cons.IH)
    have hd: "filter ?P (wr_events w) =
        (if wr_stop w = Some NoSpace \<and> \<not> once then [DevInfo] else [])"
      unfolding w_def by (rule work_once(2))
    have o': "wr_once w = (once \<or> wr_stop w = Some NoSpace)"
      unfolding w_def by (rule work_once(1))
    have "filter ?P (concat (map wr_events (w # ws'))) =
        filter ?P (wr_events w) @ filter ?P (concat (map wr_events ws'))"
      by simp
    also have "\<dots> =
        (if \<not> once \<and> (\<exists>v \<in> set (w # ws'). wr_stop v = Some NoSpace)
         then [DevInfo] else [])"
      using hd ih o' by auto
    finally show ?thesis
      by (simp only: eq)
  qed
qed

lemma process_first_saturation:
  "n < length (process_cycles sz xs once devs) \<Longrightarrow>
   (DevInfo \<in> set (wr_events (process_cycles sz xs once devs ! n))) =
     (wr_stop (process_cycles sz xs once devs ! n) = Some NoSpace \<and> \<not> once \<and>
      (\<forall>j<n. wr_stop (process_cycles sz xs once devs ! j) \<noteq> Some NoSpace))"
proof (induction xs arbitrary: once devs n)
  case Nil
  then show ?case by simp
next
  case (Cons x xs)
  obtain i o' where x: "x = (i, o')"
    by (cases x)
  show ?case
  proof (cases o')
    case (Read nonblock count writable)
    from process_read [of sz i nonblock count writable xs once devs] obtain devs'
      where d': "process_cycles sz ((i, Read nonblock count writable) # xs) once devs =
        process_cycles sz xs once devs'"
      by blast
    from Cons.prems x Read d' have "n < length (process_cycles sz xs once devs')"
      by simp
    from Cons.IH [OF this] show ?thesis
      by (simp only: x Read d')
  next
    case (Work ec)
    let ?w = "fwk_ec_console_log_work sz ec once (devs i)"
    show ?thesis
    proof (cases n)
      case 0
      with x Work show ?thesis
        by (simp add: Let_def work_devinfo_iff)
    next
      case (Suc n')
      let ?ws' = "process_cycles sz xs (wr_once ?w) (devs(i := wr_state ?w))"
      have eq: "process_cycles sz (x # xs) once devs = ?w # ?ws'"
        by (simp add: x Work Let_def)
      from Cons.prems Suc have "n' < length ?ws'"
        by (simp add: eq)
      then have ih: "(DevInfo \<in> set (wr_events (?ws' ! n'))) =
          (wr_stop (?ws' ! n') = Some NoSpace \<and> \<not> wr_once ?w \<and>
           (\<forall>j<n'. wr_stop (?ws' ! j) \<noteq> Some NoSpace))"
        by (rule Cons.IH)
      have o': "(\<not> wr_once ?w) = (\<not> once \<and> wr_stop ?w \<noteq> Some NoSpace)"
        by (simp only: work_once(1) de_Morgan_disj)
      have al: "(\<forall>j<Suc n'. wr_stop ((?w # ?ws') ! j) \<noteq> Some NoSpace) =
          (wr_stop ?w \<noteq> Some NoSpace \<and> (\<forall>j<n'. wr_stop (?ws' ! j) \<noteq> Some NoSpace))"
        by (simp only: All_less_Suc2 nth_Cons_0 nth_Cons_Suc)
      have "(DevInfo \<in> set (wr_events ((?w # ?ws') ! Suc n'))) =
          (wr_stop ((?w # ?ws') ! Suc n') = Some NoSpace \<and> \<not> once \<and>
           (\<forall>j<Suc n'. wr_stop ((?w # ?ws') ! j) \<noteq> Some NoSpace))"
        unfolding al nth_Cons_Suc ih o' by blast
      then show ?thesis
        by (simp only: eq Suc)
    qed
  qed
qed

lemma process_nth_work:
  assumes "sz = 2 ^ k"
  shows "\<forall>j. cursors_ok sz (log_buffer (devs j)) \<Longrightarrow>
   n < length (process_cycles sz xs once devs) \<Longrightarrow>
   \<exists>ec once' d'. cursors_ok sz (log_buffer d') \<and>
     process_cycles sz xs once devs ! n = fwk_ec_console_log_work sz ec once' d'"
proof (induction xs arbitrary: once devs n)
  case Nil
  then show ?case by simp
next
  case (Cons x xs)
  obtain i o' where x: "x = (i, o')"
    by (cases x)
  from Cons.prems(1) have oki: "cursors_ok sz (log_buffer (devs i))"
    by simp
  show ?case
  proof (cases o')
    case (Read nonblock count writable)
    show ?thesis
    proof (cases "fwk_ec_console_log_read sz nonblock count writable [] (log_buffer (devs i))")
      case None
      then have eq: "process_cycles sz (x # xs) once devs = process_cycles sz xs once devs"
        by (simp add: x Read)
      from Cons.prems(2) have "n < length (process_cycles sz xs once devs)"
        by (simp only: eq)
      then show ?thesis
        unfolding eq by (rule Cons.IH [OF Cons.prems(1)])
    next
      case (Some rr)
      let ?devs' = "devs(i := (devs i)\<lparr>log_buffer := rr_cb rr\<rparr>)"
      from Some have eq: "process_cycles sz (x # xs) once devs = process_cycles sz xs once ?devs'"
        by (simp add: x Read)
      from read_step_inv [OF assms oki Some] Cons.prems(1)
      have ok: "\<forall>j. cursors_ok sz (log_buffer (?devs' j))"
        by simp
      from Cons.prems(2) have "n < length (process_cycles sz xs once ?devs')"
        by (simp only: eq)
      then show ?thesis
        unfolding eq by (rule Cons.IH [OF ok])
    qed
  next
    case (Work ec)
    let ?w = "fwk_ec_console_log_work sz ec once (devs i)"
    let ?ws' = "process_cycles sz xs (wr_once ?w) (devs(i := wr_state ?w))"
    have eq: "process_cycles sz (x # xs) once devs = ?w # ?ws'"
      by (simp add: x Work Let_def)
    show ?thesis
    proof (cases n)
      case 0
      have "cursors_ok sz (log_buffer (devs i)) \<and> (?w # ?ws') ! 0 = ?w"
        using oki by simp
      then show ?thesis
        unfolding eq 0 by blast
    next
      case (Suc n')
      from work_inv [OF assms oki, of ec once] Cons.prems(1)
      have ok: "\<forall>j. cursors_ok sz (log_buffer ((devs(i := wr_state ?w)) j))"
        by simp
      from Cons.prems(2) Suc have "n' < length ?ws'"
        by (simp add: eq)
      then show ?thesis
        unfolding eq Suc nth_Cons_Suc by (rule Cons.IH [OF ok])
    qed
  qed
qed

section \<open>The forced cycle of the panic notifier\<close>

lemma loop_events_keep_work_item:
  "foldl apply_event wi (lr_events (log_work_loop sz ec n cb buf_space once)) = wi"
proof (induction sz ec n cb buf_space once rule: log_work_loop.induct)
  case (1 sz ec n cb buf_space once)
  show ?case
  proof (cases rule: log_work_loop_cases
      [where buf_space = buf_space and ec = ec and n = n and sz = sz and cb = cb])
    case nospace
    then show ?thesis
      by (simp add: log_work_loop_nospace)
  next
    case error
    then show ?thesis
      by (simp add: log_work_loop_error)
  next
    case nodata
    then show ?thesis
      by (simp add: log_work_loop_nodata)
  next
    case (more cb' idx' bs')
    from more(1) have nz: "buf_space \<noteq> 0"
      by simp
    from "1.IH" [OF nz refl refl more(2,3) refl] more(4) show ?thesis
      by (simp add: log_work_loop_more [where ec = ec and n = n, OF more])
  qed
qed

lemma work_events_reschedule:
  "foldl apply_event wi (wr_events (fwk_ec_console_log_work sz ec once d)) =
     schedule_delayed_work (LOG_POLL_SEC * 1000) wi"
  by (simp add: fwk_ec_console_log_work_def Let_def loop_events_keep_work_item)

lemma finish_cycle_eq:
  "finish_cycle sz ec (once, d, wi) =
     ((wr_once (fwk_ec_console_log_work sz ec once d),
       wr_state (fwk_ec_console_log_work sz ec once d),
       (schedule_delayed_work (LOG_POLL_SEC * 1000) wi)\<lparr>wi_running := None\<rparr>),
      fwk_ec_console_log_work sz ec once d)"
  by (simp add: finish_cycle_def Let_def work_events_reschedule)

section \<open>Evaluation of concrete runs\<close>

lemmas eval_simps =
  fwk_ec_console_log_work_def log_work_loop.simps copy_loop.simps
  fwk_ec_console_log_read.simps CIRC_ADD_def CIRC_CNT_def CIRC_SPACE_def CIRC_CNT_TO_END_def
  init_debugfs_def ec_holding_def copy_to_user_def Let_def upt_rec LOG_POLL_SEC_def

section \<open>The ring buffer under sequences of appends and reads\<close>

text \<open>
  C1. Start from the buffer as \<open>fwk_ec_create_console_log\<close> sets it up and run any
  sequence of cycles of the work item and reads. Then \<open>head\<close> and \<open>tail\<close> are in
  \<open>[0, size)\<close>; the count of valid bytes \<open>(head - tail) mod size\<close>, which is what
  \<open>CIRC_CNT\<close> computes, is the number of bytes appended minus the number of bytes
  read; it is at most \<open>size - 1\<close>; and it is 0 exactly when \<open>head = tail\<close>.
\<close>

theorem cursors_and_count_invariant:
  assumes "sz = 2 ^ k"
    and "run sz ops once init_debugfs = (d, appended, drained)"
  shows "0 \<le> head (log_buffer d) \<and> head (log_buffer d) < sz \<and>
         0 \<le> tail (log_buffer d) \<and> tail (log_buffer d) < sz \<and>
         CIRC_CNT (head (log_buffer d)) (tail (log_buffer d)) sz =
           (head (log_buffer d) - tail (log_buffer d)) mod sz \<and>
         (head (log_buffer d) - tail (log_buffer d)) mod sz =
           int (length appended) - int (length drained) \<and>
         (head (log_buffer d) - tail (log_buffer d)) mod sz \<le> sz - 1 \<and>
         (((head (log_buffer d) - tail (log_buffer d)) mod sz = 0) =
          (head (log_buffer d) = tail (log_buffer d)))"
proof -
  let ?cb = "log_buffer d"
  let ?c = "(head ?cb - tail ?cb) mod sz"
  from run_inv [OF assms(1) init_cursors_ok [OF assms(1)], of ops once] assms(2)
  have ok: "cursors_ok sz ?cb"
    and fifo: "appended = drained @ contents sz ?cb"
    by (simp_all add: init_contents)
  have cnt: "CIRC_CNT (head ?cb) (tail ?cb) sz = ?c"
    by (rule CIRC_CNT_mod [OF assms(1)])
  have "int (length appended) = int (length drained) + int (length (contents sz ?cb))"
    by (subst fifo) simp
  then have bal: "?c = int (length appended) - int (length drained)"
    by (simp add: length_contents [OF assms(1)] cnt)
  have "0 < sz"
    using assms(1) by simp
  then have "?c < sz"
    by simp
  then have bound: "?c \<le> sz - 1"
    by simp
  have emp: "(?c = 0) = (head ?cb = tail ?cb)"
    using empty_iff_cursors_equal [OF assms(1) ok] by (simp only: cnt)
  from ok have rng: "0 \<le> head ?cb" "head ?cb < sz" "0 \<le> tail ?cb" "tail ?cb < sz"
    by (simp_all add: cursors_ok_def)
  from rng cnt bal bound emp show ?thesis
    by blast
qed

theorem cursors_and_count_invariant_witness:
  "(4 :: int) = 2 ^ 2 \<and>
   head (log_buffer (fst (run 4 [Work (ec_holding [97, 98, 99]), Read True 2 2,
      Work (ec_holding [100, 101]), Read False 100 100] False init_debugfs))) = 1 \<and>
   tail (log_buffer (fst (run 4 [Work (ec_holding [97, 98, 99]), Read True 2 2,
      Work (ec_holding [100, 101]), Read False 100 100] False init_debugfs))) = 0 \<and>
   fst (snd (run 4 [Work (ec_holding [97, 98, 99]), Read True 2 2,
      Work (ec_holding [100, 101]), Read False 100 100] False init_debugfs)) =
     [97, 98, 99, 100, 101] \<and>
   snd (snd (run 4 [Work (ec_holding [97, 98, 99]), Read True 2 2,
      Work (ec_holding [100, 101]), Read False 100 100] False init_debugfs)) =
     [97, 98, 99, 100] \<and>
   ((1 :: int) - 0) mod 4 =
     int (length [97, 98, 99, 100, 101 :: u8]) - int (length [97, 98, 99, 100 :: u8])"
proof -
  let ?ops = "[Work (ec_holding [97, 98, 99]), Read True 2 2,
      Work (ec_holding [100, 101]), Read False 100 100]"
  let ?R = "run 4 ?ops False init_debugfs"
  have a: "(4 :: int) = 2 ^ 2" by simp
  have r: "?R = (fst ?R, fst (snd ?R), snd (snd ?R))" by simp
  have h: "head (log_buffer (fst ?R)) = 1"
    by (simp add: eval_simps)
  have t: "tail (log_buffer (fst ?R)) = 0"
    by (simp add: eval_simps)
  have ap: "fst (snd ?R) = [97, 98, 99, 100, 101]"
    by (simp add: eval_simps)
  have dr: "snd (snd ?R) = [97, 98, 99, 100]"
    by (simp add: eval_simps)
  from cursors_and_count_invariant [OF a r]
  have "(head (log_buffer (fst ?R)) - tail (log_buffer (fst ?R))) mod 4 =
          int (length (fst (snd ?R))) - int (length (snd (snd ?R)))"
    by blast
  then have bal: "((1 :: int) - 0) mod 4 =
      int (length [97, 98, 99, 100, 101 :: u8]) - int (length [97, 98, 99, 100 :: u8])"
    by (simp only: h t ap dr)
  from a h t ap dr bal show ?thesis
    by blast
qed

text \<open>
  C2. In any sequence of cycles and reads started on the fresh buffer, the bytes
  appended so far are, in order, the bytes read so far followed by the bytes still in
  the buffer. So whatever the number of appends and the lengths asked for by the
  reads, once the buffer has been read empty the reads together have returned exactly
  the appended bytes, in the order they were appended.
\<close>

theorem fifo_round_trip:
  assumes "sz = 2 ^ k"
    and "run sz ops once init_debugfs = (d, appended, drained)"
  shows "appended = drained @ contents sz (log_buffer d) \<and>
         (head (log_buffer d) = tail (log_buffer d) \<longrightarrow> drained = appended)"
proof -
  from run_inv [OF assms(1) init_cursors_ok [OF assms(1)], of ops once] assms(2)
  have ok: "cursors_ok sz (log_buffer d)"
    and fifo: "appended = drained @ contents sz (log_buffer d)"
    by (simp_all add: init_contents)
  have "contents sz (log_buffer d) = []" if "head (log_buffer d) = tail (log_buffer d)"
    using that by (simp add: contents_def CIRC_CNT_def)
  with fifo show ?thesis
    by simp
qed

theorem fifo_round_trip_witness:
  "(16 :: int) = 2 ^ 4 \<and>
   fst (snd (run 16 [Work (ec_holding [72, 69, 76, 76, 79, 87, 79, 82, 76, 68]),
      Read False 4 100, Read False 100 100] False init_debugfs)) =
     [72, 69, 76, 76, 79, 87, 79, 82, 76, 68] \<and>
   snd (snd (run 16 [Work (ec_holding [72, 69, 76, 76, 79, 87, 79, 82, 76, 68]),
      Read False 4 100, Read False 100 100] False init_debugfs)) =
     [72, 69, 76, 76] @ [79, 87, 79, 82, 76, 68] \<and>
   head (log_buffer (fst (run 16 [Work (ec_holding [72, 69, 76, 76, 79, 87, 79, 82, 76, 68]),
      Read False 4 100, Read False 100 100] False init_debugfs))) = 10 \<and>
   tail (log_buffer (fst (run 16 [Work (ec_holding [72, 69, 76, 76, 79, 87, 79, 82, 76, 68]),
      Read False 4 100, Read False 100 100] False init_debugfs))) = 10"
proof -
  let ?ops = "[Work (ec_holding [72, 69, 76, 76, 79, 87, 79, 82, 76, 68]),
      Read False 4 100, Read False 100 100]"
  let ?R = "run 16 ?ops False init_debugfs"
  have a: "(16 :: int) = 2 ^ 4" by simp
  have r: "?R = (fst ?R, fst (snd ?R), snd (snd ?R))" by simp
  have h: "head (log_buffer (fst ?R)) = 10"
    by (simp add: eval_simps)
  have t: "tail (log_buffer (fst ?R)) = 10"
    by (simp add: eval_simps)
  have ap: "fst (snd ?R) = [72, 69, 76, 76, 79, 87, 79, 82, 76, 68]"
    by (simp add: eval_simps)
  from h t have "head (log_buffer (fst ?R)) = tail (log_buffer (fst ?R))"
    by simp
  with fifo_round_trip [OF a r] have eq: "snd (snd ?R) = fst (snd ?R)"
    by blast
  have cat: "[72, 69, 76, 76] @ [79, 87, 79, 82, 76, 68] =
      [72, 69, 76, 76, 79, 87, 79, 82, 76, 68 :: u8]"
    by simp
  have dr: "snd (snd ?R) = [72, 69, 76, 76] @ [79, 87, 79, 82, 76, 68]"
    by (simp only: eq ap cat)
  from a ap dr h t show ?thesis
    by blast
qed

section \<open>One read\<close>

text \<open>
  C3. A successful read that finds the buffer non-empty hands out exactly
  \<open>min(n, run)\<close> bytes, where \<open>run\<close> is the number of valid bytes from \<open>tail\<close> to the
  physical end of the storage, \<open>min(count, size - tail)\<close>. They are the bytes stored
  at the addresses \<open>tail, \<dots>, tail + m - 1\<close>, all below the capacity, and they are the
  oldest \<open>m\<close> bytes of the buffer. Only \<open>tail\<close> changes, to \<open>(tail + m) mod size\<close>, and
  the count drops by \<open>m\<close>. With \<open>n > 0\<close> the read returns at least one byte.
\<close>

theorem read_copies_contiguous_run:
  assumes "sz = 2 ^ k"
    and "cursors_ok sz cb"
    and "CIRC_CNT (head cb) (tail cb) sz \<noteq> 0"
    and "fwk_ec_console_log_read sz nonblock n writable ws cb = Some rr"
    and "rr_ret rr = Inr m"
  shows "int m = min (int n) (min (CIRC_CNT (head cb) (tail cb) sz) (sz - tail cb)) \<and>
         rr_data rr = map (\<lambda>i. buf cb (tail cb + int i)) [0..<m] \<and>
         tail cb + int m \<le> sz \<and>
         rr_data rr = take m (contents sz cb) \<and>
         rr_cb rr = cb\<lparr>tail := (tail cb + int m) mod sz\<rparr> \<and>
         CIRC_CNT (head (rr_cb rr)) (tail (rr_cb rr)) sz =
           CIRC_CNT (head cb) (tail cb) sz - int m \<and>
         (0 < n \<longrightarrow> 0 < m)"
proof -
  let ?c = "CIRC_CNT (head cb) (tail cb) sz"
  let ?e = "CIRC_CNT_TO_END (head cb) (tail cb) sz"
  note rs = read_success [OF assms(3,4,5)]
  have e: "?e = min ?c (sz - tail cb)"
    by (rule CIRC_CNT_TO_END_min [OF assms(1,2)])
  have c_pos: "0 < ?c"
    using CIRC_CNT_nonneg [OF assms(1), of "head cb" "tail cb"] assms(3) by simp
  have e_pos: "0 < ?e"
    using c_pos assms(2) by (simp add: e cursors_ok_def)
  have "int (nat ?e) = ?e"
    using e_pos by simp
  then have "int m = min ?e (int n)"
    unfolding rs(1) by (simp only: of_nat_min)
  then have m: "int m = min (int n) ?e"
    by (simp only: min.commute)
  then have le: "int m \<le> ?e"
    by simp
  note dr = drain_inv [OF assms(1,2) le]
  have cb': "rr_cb rr = cb\<lparr>tail := (tail cb + int m) mod sz\<rparr>"
    by (simp add: rs(3) CIRC_ADD_mod [OF assms(1)])
  have cnt': "CIRC_CNT (head (rr_cb rr)) (tail (rr_cb rr)) sz = ?c - int m"
    using dr(4) by (simp add: rs(3))
  have pos: "0 < n \<longrightarrow> 0 < m"
    using m e_pos by (simp add: min_def split: if_splits)
  have m': "int m = min (int n) (min ?c (sz - tail cb))"
    using m by (simp only: e)
  have data: "rr_data rr = take m (contents sz cb)"
    using rs(2) dr(5) by simp
  from m' rs(2) dr(1) data cb' cnt' pos show ?thesis
    by blast
qed

theorem read_copies_contiguous_run_witness:
  "(16 :: int) = 2 ^ 4 \<and>
   cursors_ok 16 \<lparr>buf = (\<lambda>i. of_int i), head = 3, tail = 14\<rparr> \<and>
   CIRC_CNT 3 14 16 = 5 \<and>
   fwk_ec_console_log_read 16 False 4 4 [] \<lparr>buf = (\<lambda>i. of_int i), head = 3, tail = 14\<rparr> =
     Some \<lparr>rr_ret = Inr 2, rr_data = [14, 15],
           rr_cb = \<lparr>buf = (\<lambda>i. of_int i), head = 3, tail = 0\<rparr>\<rparr> \<and>
   CIRC_CNT 3 0 16 = 3"
proof -
  let ?cb = "\<lparr>buf = (\<lambda>i. of_int i :: u8), head = 3, tail = 14\<rparr>"
  let ?rr = "\<lparr>rr_ret = Inr 2, rr_data = [14, 15 :: u8],
              rr_cb = \<lparr>buf = (\<lambda>i. of_int i :: u8), head = 3, tail = 0\<rparr>\<rparr>"
  have a: "(16 :: int) = 2 ^ 4" by simp
  have b: "cursors_ok 16 ?cb" by (simp add: cursors_ok_def)
  have c5: "CIRC_CNT 3 14 16 = 5"
    by (simp add: CIRC_CNT_mod [OF a])
  then have c: "CIRC_CNT (head ?cb) (tail ?cb) 16 \<noteq> 0" by simp
  have te: "CIRC_CNT_TO_END 3 14 16 = 2"
    using CIRC_CNT_TO_END_min [OF a b] c5 by simp
  have d: "fwk_ec_console_log_read 16 False 4 4 [] ?cb = Some ?rr"
    by (simp add: read_nonempty [OF c] te copy_to_user_def CIRC_ADD_mod [OF a] upt_rec)
  have e: "rr_ret ?rr = Inr 2" by simp
  have c3: "CIRC_CNT 3 0 16 = 3"
    by (simp add: CIRC_CNT_mod [OF a])
  from read_copies_contiguous_run [OF a b c d e] a b c5 d c3 show ?thesis
    by blast
qed

section \<open>The acquisition cycle\<close>

text \<open>
  C4. A cycle whose snapshot command succeeds computes the free space \<open>s\<close> of the
  buffer and then appends the responses of its read commands, exactly as the spec
  words it (\<open>accepted_chunks\<close>): every append accepts the first \<open>min(k, s')\<close> of the
  \<open>k\<close> bytes its response holds before the terminator, \<open>s'\<close> being the free space
  left at that point, and the cycle stops at a transport error, at an empty response
  and when the free space is 0. In particular, when the EC delivers one response of
  \<open>k\<close> bytes without terminator and then reports no more data, the cycle accepts
  exactly the first \<open>min(k, s)\<close> of them. With no free space the cycle issues no read
  command and leaves the device as it is. The accepted bytes go behind the bytes
  already held; \<open>tail\<close> does not move, the count grows by their number and never
  exceeds \<open>size - 1\<close>.
\<close>

theorem cycle_appends_min:
  assumes "sz = 2 ^ k"
    and "cursors_ok sz (log_buffer d)"
    and "\<not> snapshot_ret ec < 0"
    and "s = nat (CIRC_SPACE (head (log_buffer d)) (tail (log_buffer d)) sz)"
    and "w = fwk_ec_console_log_work sz ec once d"
  shows "wr_appended w = concat (accepted_chunks s (read_resp ec) 0) \<and>
         (0 < fst (read_resp ec 0) \<and>
          (\<forall>i < nat (fst (read_resp ec 0)). snd (read_resp ec 0) i \<noteq> 0) \<and>
          fst (read_resp ec 1) = 0 \<longrightarrow>
            wr_appended w =
              take s (map (snd (read_resp ec 0)) [0..<nat (fst (read_resp ec 0))]) \<and>
            length (wr_appended w) = min (nat (fst (read_resp ec 0))) s) \<and>
         (s = 0 \<longrightarrow> wr_appended w = [] \<and> wr_state w = d \<and> XferRead \<notin> set (wr_events w)) \<and>
         length (wr_appended w) \<le> s \<and>
         contents sz (log_buffer (wr_state w)) = contents sz (log_buffer d) @ wr_appended w \<and>
         tail (log_buffer (wr_state w)) = tail (log_buffer d) \<and>
         CIRC_CNT (head (log_buffer (wr_state w))) (tail (log_buffer (wr_state w))) sz =
           CIRC_CNT (head (log_buffer d)) (tail (log_buffer d)) sz +
           int (length (wr_appended w)) \<and>
         CIRC_CNT (head (log_buffer (wr_state w))) (tail (log_buffer (wr_state w))) sz \<le> sz - 1"
proof -
  let ?cb = "log_buffer d"
  let ?cb' = "log_buffer (wr_state w)"
  let ?r = "log_work_loop sz (read_resp ec) 0 ?cb s once"
  let ?ret = "fst (read_resp ec 0)"
  let ?data = "snd (read_resp ec 0)"
  have w: "wr_appended w = lr_appended ?r" "wr_state w = d\<lparr>log_buffer := lr_cb ?r\<rparr>"
    "wr_events w = XferSnapshot # lr_events ?r @ [ScheduleDelayedWork (LOG_POLL_SEC * 1000)]"
    using assms(3) by (simp_all add: assms(4,5) fwk_ec_console_log_work_def Let_def)
  have chunks: "wr_appended w = concat (accepted_chunks s (read_resp ec) 0)"
    by (simp only: w(1) log_work_loop_chunks [OF assms(1,2,4)])
  from work_inv [OF assms(1,2), of ec once]
  have ok': "cursors_ok sz ?cb'"
    and t': "tail ?cb' = tail ?cb"
    and c': "contents sz ?cb' = contents sz ?cb @ wr_appended w"
    by (simp_all add: assms(5))
  have "int (length (contents sz ?cb')) =
      int (length (contents sz ?cb)) + int (length (wr_appended w))"
    by (simp add: c')
  then have cnt: "CIRC_CNT (head ?cb') (tail ?cb') sz =
      CIRC_CNT (head ?cb) (tail ?cb) sz + int (length (wr_appended w))"
    by (simp only: length_contents [OF assms(1)])
  have "0 \<le> CIRC_SPACE (head ?cb') (tail ?cb') sz"
    by (rule CIRC_SPACE_nonneg [OF assms(1)])
  then have bound: "CIRC_CNT (head ?cb') (tail ?cb') sz \<le> sz - 1"
    by (simp add: CIRC_SPACE_cnt [OF assms(1) ok'])
  have "0 \<le> CIRC_SPACE (head ?cb) (tail ?cb) sz"
    by (rule CIRC_SPACE_nonneg [OF assms(1)])
  then have "int s = sz - 1 - CIRC_CNT (head ?cb) (tail ?cb) sz"
    by (simp add: assms(4) CIRC_SPACE_cnt [OF assms(1,2)])
  with cnt bound have len: "length (wr_appended w) \<le> s"
    by simp
  have full: "wr_appended w = [] \<and> wr_state w = d \<and> XferRead \<notin> set (wr_events w)" if "s = 0"
    using that by (simp add: w log_work_loop_nospace)
  have one: "wr_appended w = take s (map ?data [0..<nat ?ret]) \<and>
      length (wr_appended w) = min (nat ?ret) s"
    if pos: "0 < ?ret" and all: "\<forall>i < nat ?ret. ?data i \<noteq> 0" and fin: "fst (read_resp ec 1) = 0"
  proof -
    let ?p = "payload ?ret ?data 0"
    have p: "?p = map ?data [0..<nat ?ret]"
      unfolding payload_def using all by (intro takeWhile_eq_all_conv [THEN iffD2]) auto
    have rest: "accepted_chunks (s - min (length ?p) s) (read_resp ec) (0 + 1) = []"
      using fin by (subst accepted_chunks.simps) simp
    have "accepted_chunks s (read_resp ec) 0 = (if s = 0 then [] else [take s ?p])"
    proof (cases "s = 0")
      case True
      then show ?thesis
        by (subst accepted_chunks.simps) simp
    next
      case False
      from pos all have "?data 0 \<noteq> 0"
        by simp
      with False pos have "accepted_chunks s (read_resp ec) 0 =
          take s ?p # accepted_chunks (s - min (length ?p) s) (read_resp ec) (0 + 1)"
        by (subst accepted_chunks.simps) simp
      with False show ?thesis
        by (simp only: rest) simp
    qed
    then have "wr_appended w = take s ?p"
      by (simp add: chunks)
    then show ?thesis
      by (simp add: p)
  qed
  from chunks one full len c' t' cnt bound show ?thesis
    by blast
qed

theorem cycle_appends_min_witness:
  "(16 :: int) = 2 ^ 4 \<and>
   cursors_ok 16 \<lparr>buf = (\<lambda>_. 65), head = 14, tail = 0\<rparr> \<and>
   CIRC_CNT 14 0 16 = 14 \<and>
   (1 :: nat) = nat (CIRC_SPACE 14 0 16) \<and>
   fst (read_resp (ec_holding [72, 73, 74, 75, 76]) 0) = 5 \<and>
   wr_appended (fwk_ec_console_log_work 16 (ec_holding [72, 73, 74, 75, 76]) False
      \<lparr>log_buffer = \<lparr>buf = (\<lambda>_. 65), head = 14, tail = 0\<rparr>\<rparr>) = [72] \<and>
   wr_events (fwk_ec_console_log_work 16 (ec_holding [72, 73, 74, 75, 76]) False
      \<lparr>log_buffer = \<lparr>buf = (\<lambda>_. 65), head = 14, tail = 0\<rparr>\<rparr>) =
     [XferSnapshot, XferRead, WakeUp, DevInfo, ScheduleDelayedWork 10000] \<and>
   head (log_buffer (wr_state (fwk_ec_console_log_work 16
      (ec_holding [72, 73, 74, 75, 76]) False
      \<lparr>log_buffer = \<lparr>buf = (\<lambda>_. 65), head = 14, tail = 0\<rparr>\<rparr>))) = 15 \<and>
   length (wr_appended (fwk_ec_console_log_work 16 (ec_holding [72, 73, 74, 75, 76]) False
      \<lparr>log_buffer = \<lparr>buf = (\<lambda>_. 65), head = 14, tail = 0\<rparr>\<rparr>)) = min (nat 5) 1"
proof -
  let ?d = "\<lparr>log_buffer = \<lparr>buf = (\<lambda>_. 65 :: u8), head = 14, tail = 0\<rparr>\<rparr>"
  let ?ec = "ec_holding [72, 73, 74, 75, 76]"
  let ?w = "fwk_ec_console_log_work 16 ?ec False ?d"
  have a: "(16 :: int) = 2 ^ 4" by simp
  have b: "cursors_ok 16 (log_buffer ?d)" by (simp add: cursors_ok_def)
  have c: "\<not> snapshot_ret ?ec < 0" by (simp add: ec_holding_def)
  have sp: "(1 :: nat) = nat (CIRC_SPACE 14 0 16)"
    by (simp add: CIRC_SPACE_def CIRC_CNT_def)
  then have s: "(1 :: nat) = nat (CIRC_SPACE (head (log_buffer ?d)) (tail (log_buffer ?d)) 16)"
    by simp
  have r0: "fst (read_resp ?ec 0) = 5"
    by (simp add: ec_holding_def)
  have "list_all (\<lambda>i. snd (read_resp ?ec 0) i \<noteq> 0) [0..<5]"
    by (simp add: ec_holding_def upt_rec)
  then have "\<forall>i < nat (fst (read_resp ?ec 0)). snd (read_resp ?ec 0) i \<noteq> 0"
    by (simp add: r0 list_all_iff)
  then have pre: "0 < fst (read_resp ?ec 0) \<and>
      (\<forall>i < nat (fst (read_resp ?ec 0)). snd (read_resp ?ec 0) i \<noteq> 0) \<and>
      fst (read_resp ?ec 1) = 0"
    by (simp add: ec_holding_def)
  from cycle_appends_min [OF a b c s refl, of False] pre
  have len: "length (wr_appended ?w) = min (nat (fst (read_resp ?ec 0))) 1"
    by blast
  have len': "length (wr_appended ?w) = min (nat 5) 1"
    using len by (simp only: r0)
  have c14: "CIRC_CNT 14 0 16 = 14"
    by (simp add: CIRC_CNT_def)
  have b': "cursors_ok 16 \<lparr>buf = (\<lambda>_. 65 :: u8), head = 14, tail = 0\<rparr>"
    by (simp add: cursors_ok_def)
  have ap: "wr_appended ?w = [72]"
    by (simp add: eval_simps)
  have ev: "wr_events ?w = [XferSnapshot, XferRead, WakeUp, DevInfo, ScheduleDelayedWork 10000]"
    by (simp add: eval_simps)
  have h: "head (log_buffer (wr_state ?w)) = 15"
    by (simp add: eval_simps)
  from a b' c14 sp r0 ap ev h len' show ?thesis
    by blast
qed


text \<open>
  C6. When the transport fails on the snapshot command (negative status), the cycle
  goes straight to \<open>resched\<close>: the state, and with it the buffer's storage, head and
  tail, is the one it started with, as is the flag of the message; no read command is
  issued and nothing is stored; the only things the cycle does are the snapshot
  command and \<open>schedule_delayed_work\<close> with the fixed delay of \<open>LOG_POLL_SEC\<close> seconds.
\<close>

theorem snapshot_failure_skips_cycle:
  "snapshot_ret ec < 0 \<Longrightarrow>
   fwk_ec_console_log_work sz ec once d =
     \<lparr>wr_state = d, wr_once = once,
      wr_events = [XferSnapshot, ScheduleDelayedWork (LOG_POLL_SEC * 1000)],
      wr_appended = [], wr_stop = None\<rparr> \<and>
   XferRead \<notin> set (wr_events (fwk_ec_console_log_work sz ec once d)) \<and>
   LOG_POLL_SEC * 1000 = 10000"
  by (simp add: fwk_ec_console_log_work_def LOG_POLL_SEC_def)

theorem snapshot_failure_skips_cycle_witness:
  "snapshot_ret \<lparr>snapshot_ret = - 5, read_resp = (\<lambda>n. (3, (\<lambda>i. 65)))\<rparr> < 0 \<and>
   fwk_ec_console_log_work LOG_SIZE
       \<lparr>snapshot_ret = - 5, read_resp = (\<lambda>n. (3, (\<lambda>i. 65)))\<rparr> False init_debugfs =
     \<lparr>wr_state = init_debugfs, wr_once = False,
      wr_events = [XferSnapshot, ScheduleDelayedWork 10000],
      wr_appended = [], wr_stop = None\<rparr>"
proof -
  have neg: "snapshot_ret \<lparr>snapshot_ret = - 5, read_resp = (\<lambda>n. (3, (\<lambda>i. (65 :: u8))))\<rparr> < 0"
    by simp
  from neg snapshot_failure_skips_cycle [OF neg, of LOG_SIZE False init_debugfs] show ?thesis
    by (simp add: LOG_POLL_SEC_def)
qed

text \<open>
  C7. Take all the cycles the process runs, on any number of device instances, with
  any reads between them; the flag of \<open>dev_info_once\<close> is the one flag of the process.
  Over all these cycles the message "Some logs may have been dropped" is printed at
  most once. The cycle that prints it is the first one, of whichever instance, that
  leaves its loop because \<open>buf_space\<close> is 0, provided the flag was not yet set when
  the cycles began; no later cycle of any instance prints it. A cycle leaves its loop
  this way exactly when it got past the snapshot command and the buffer has no free
  space when it ends. Such a cycle issues no further command: after its reads it
  prints the message or not, and then reschedules itself like every other cycle.
\<close>

theorem dropped_message_once:
  assumes "sz = 2 ^ k"
    and "\<forall>j. cursors_ok sz (log_buffer (devs j))"
  shows
  "length (filter (\<lambda>e. e = DevInfo)
     (concat (map wr_events (process_cycles sz xs once devs)))) \<le> 1 \<and>
   (\<forall>n < length (process_cycles sz xs once devs).
      (DevInfo \<in> set (wr_events (process_cycles sz xs once devs ! n))) =
        (wr_stop (process_cycles sz xs once devs ! n) = Some NoSpace \<and> \<not> once \<and>
         (\<forall>j<n. wr_stop (process_cycles sz xs once devs ! j) \<noteq> Some NoSpace))) \<and>
   (\<forall>n < length (process_cycles sz xs once devs).
      (wr_stop (process_cycles sz xs once devs ! n) = Some NoSpace) =
        (wr_stop (process_cycles sz xs once devs ! n) \<noteq> None \<and>
         CIRC_SPACE (head (log_buffer (wr_state (process_cycles sz xs once devs ! n))))
           (tail (log_buffer (wr_state (process_cycles sz xs once devs ! n)))) sz = 0)) \<and>
   (\<forall>n < length (process_cycles sz xs once devs).
      wr_stop (process_cycles sz xs once devs ! n) = Some NoSpace \<longrightarrow>
        (\<exists>m. wr_events (process_cycles sz xs once devs ! n) =
           XferSnapshot # concat (replicate m [XferRead, WakeUp]) @
           (if DevInfo \<in> set (wr_events (process_cycles sz xs once devs ! n))
            then [DevInfo] else []) @
           [ScheduleDelayedWork (LOG_POLL_SEC * 1000)]))"
proof (intro conjI allI impI)
  show "length (filter (\<lambda>e. e = DevInfo)
      (concat (map wr_events (process_cycles sz xs once devs)))) \<le> 1"
    by (simp only: process_devinfo) simp
next
  fix n assume "n < length (process_cycles sz xs once devs)"
  then show "(DevInfo \<in> set (wr_events (process_cycles sz xs once devs ! n))) =
        (wr_stop (process_cycles sz xs once devs ! n) = Some NoSpace \<and> \<not> once \<and>
         (\<forall>j<n. wr_stop (process_cycles sz xs once devs ! j) \<noteq> Some NoSpace))"
    by (rule process_first_saturation)
next
  fix n assume n: "n < length (process_cycles sz xs once devs)"
  from process_nth_work [OF assms n] obtain ec once' d'
    where ok: "cursors_ok sz (log_buffer d')"
      and w: "process_cycles sz xs once devs ! n = fwk_ec_console_log_work sz ec once' d'"
    by blast
  show "(wr_stop (process_cycles sz xs once devs ! n) = Some NoSpace) =
        (wr_stop (process_cycles sz xs once devs ! n) \<noteq> None \<and>
         CIRC_SPACE (head (log_buffer (wr_state (process_cycles sz xs once devs ! n))))
           (tail (log_buffer (wr_state (process_cycles sz xs once devs ! n)))) sz = 0)"
    unfolding w by (rule work_nospace_iff [OF assms(1) ok])
next
  fix n assume n: "n < length (process_cycles sz xs once devs)"
    and sat: "wr_stop (process_cycles sz xs once devs ! n) = Some NoSpace"
  from process_nth_work [OF assms n] obtain ec once' d'
    where w: "process_cycles sz xs once devs ! n = fwk_ec_console_log_work sz ec once' d'"
    by blast
  from sat show "\<exists>m. wr_events (process_cycles sz xs once devs ! n) =
           XferSnapshot # concat (replicate m [XferRead, WakeUp]) @
           (if DevInfo \<in> set (wr_events (process_cycles sz xs once devs ! n))
            then [DevInfo] else []) @
           [ScheduleDelayedWork (LOG_POLL_SEC * 1000)]"
    unfolding w by (rule work_saturated_events)
qed

theorem dropped_message_once_witness:
  "(16 :: int) = 2 ^ 4 \<and>
   cursors_ok 16 \<lparr>buf = (\<lambda>_. 65), head = 14, tail = 0\<rparr> \<and>
   map wr_events (process_cycles 16
      [(0, Work (ec_holding [72, 73, 74, 75, 76])), (1, Work (ec_holding [77, 78])),
       (0, Read False 4 4), (0, Work (ec_holding [79, 80, 81, 82, 83, 84])),
       (1, Work (ec_holding [85]))]
      False (\<lambda>_. \<lparr>log_buffer = \<lparr>buf = (\<lambda>_. 65), head = 14, tail = 0\<rparr>\<rparr>)) =
     [[XferSnapshot, XferRead, WakeUp, DevInfo, ScheduleDelayedWork 10000],
      [XferSnapshot, XferRead, WakeUp, ScheduleDelayedWork 10000],
      [XferSnapshot, XferRead, WakeUp, ScheduleDelayedWork 10000],
      [XferSnapshot, ScheduleDelayedWork 10000]] \<and>
   map wr_stop (process_cycles 16
      [(0, Work (ec_holding [72, 73, 74, 75, 76])), (1, Work (ec_holding [77, 78])),
       (0, Read False 4 4), (0, Work (ec_holding [79, 80, 81, 82, 83, 84])),
       (1, Work (ec_holding [85]))]
      False (\<lambda>_. \<lparr>log_buffer = \<lparr>buf = (\<lambda>_. 65), head = 14, tail = 0\<rparr>\<rparr>)) =
     [Some NoSpace, Some NoSpace, Some NoSpace, Some NoSpace] \<and>
   map wr_appended (process_cycles 16
      [(0, Work (ec_holding [72, 73, 74, 75, 76])), (1, Work (ec_holding [77, 78])),
       (0, Read False 4 4), (0, Work (ec_holding [79, 80, 81, 82, 83, 84])),
       (1, Work (ec_holding [85]))]
      False (\<lambda>_. \<lparr>log_buffer = \<lparr>buf = (\<lambda>_. 65), head = 14, tail = 0\<rparr>\<rparr>)) =
     [[72], [77], [79, 80, 81, 82], []] \<and>
   length (filter (\<lambda>e. e = DevInfo) (concat (map wr_events (process_cycles 16
      [(0, Work (ec_holding [72, 73, 74, 75, 76])), (1, Work (ec_holding [77, 78])),
       (0, Read False 4 4), (0, Work (ec_holding [79, 80, 81, 82, 83, 84])),
       (1, Work (ec_holding [85]))]
      False (\<lambda>_. \<lparr>log_buffer = \<lparr>buf = (\<lambda>_. 65), head = 14, tail = 0\<rparr>\<rparr>))))) \<le> 1"
proof -
  let ?xs = "[(0, Work (ec_holding [72, 73, 74, 75, 76])), (1, Work (ec_holding [77, 78])),
       (0, Read False 4 4), (0, Work (ec_holding [79, 80, 81, 82, 83, 84])),
       (1, Work (ec_holding [85]))]"
  let ?devs = "\<lambda>_ :: nat. \<lparr>log_buffer = \<lparr>buf = (\<lambda>_. 65 :: u8), head = 14, tail = 0\<rparr>\<rparr>"
  have a: "(16 :: int) = 2 ^ 4" by simp
  have b: "cursors_ok 16 \<lparr>buf = (\<lambda>_. 65 :: u8), head = 14, tail = 0\<rparr>"
    by (simp add: cursors_ok_def)
  then have oks: "\<forall>j. cursors_ok 16 (log_buffer (?devs j))"
    by simp
  have ev: "map wr_events (process_cycles 16 ?xs False ?devs) =
     [[XferSnapshot, XferRead, WakeUp, DevInfo, ScheduleDelayedWork 10000],
      [XferSnapshot, XferRead, WakeUp, ScheduleDelayedWork 10000],
      [XferSnapshot, XferRead, WakeUp, ScheduleDelayedWork 10000],
      [XferSnapshot, ScheduleDelayedWork 10000]]"
    by (simp add: eval_simps)
  have st: "map wr_stop (process_cycles 16 ?xs False ?devs) =
      [Some NoSpace, Some NoSpace, Some NoSpace, Some NoSpace]"
    by (simp add: eval_simps)
  have ap: "map wr_appended (process_cycles 16 ?xs False ?devs) =
      [[72], [77], [79, 80, 81, 82], []]"
    by (simp add: eval_simps)
  from dropped_message_once [OF a oks, of ?xs False]
  have "length (filter (\<lambda>e. e = DevInfo)
      (concat (map wr_events (process_cycles 16 ?xs False ?devs)))) \<le> 1"
    by (rule conjunct1)
  with a b ev st ap show ?thesis
    by blast
qed

section \<open>The panic notifier\<close>

text \<open>
  C5. The handler of the panic notification always returns \<open>NOTIFY_DONE\<close>. When the
  buffer was never allocated it makes no workqueue call, no cycle runs and nothing
  changes. Otherwise it calls \<open>mod_delayed_work\<close> with delay 0 and then
  \<open>flush_delayed_work\<close>, whatever the delay the work item was waiting for. If no
  cycle is in flight, exactly one cycle, the forced one, has run to completion when
  the handler returns. If a cycle is in flight, that cycle completes first and then
  exactly one more, the forced one, started on the state the first one left. In both
  cases the work item is idle afterwards and queued again at the regular interval.
\<close>

theorem panic_event_forces_one_cycle:
  "(dev_log dev = None \<longrightarrow>
      fwk_ec_debugfs_panic_event sz ec_next once dev =
        \<lparr>pr_ret = NOTIFY_DONE, pr_once = once, pr_dev = dev,
         pr_calls = [], pr_cycles = []\<rparr>) \<and>
   (dev_log dev = Some d \<and> wi_running (dev_work dev) = None \<longrightarrow>
      fwk_ec_debugfs_panic_event sz ec_next once dev =
        \<lparr>pr_ret = NOTIFY_DONE,
         pr_once = wr_once (fwk_ec_console_log_work sz ec_next once d),
         pr_dev = \<lparr>dev_log = Some (wr_state (fwk_ec_console_log_work sz ec_next once d)),
                   dev_work = \<lparr>wi_running = None,
                                wi_pending = Some (LOG_POLL_SEC * 1000)\<rparr>\<rparr>,
         pr_calls = [ModDelayedWork 0, FlushDelayedWork],
         pr_cycles = [fwk_ec_console_log_work sz ec_next once d]\<rparr>) \<and>
   (dev_log dev = Some d \<and> wi_running (dev_work dev) = Some ec_r \<longrightarrow>
      fwk_ec_debugfs_panic_event sz ec_next once dev =
        \<lparr>pr_ret = NOTIFY_DONE,
         pr_once = wr_once (fwk_ec_console_log_work sz ec_next
                     (wr_once (fwk_ec_console_log_work sz ec_r once d))
                     (wr_state (fwk_ec_console_log_work sz ec_r once d))),
         pr_dev = \<lparr>dev_log = Some (wr_state (fwk_ec_console_log_work sz ec_next
                     (wr_once (fwk_ec_console_log_work sz ec_r once d))
                     (wr_state (fwk_ec_console_log_work sz ec_r once d)))),
                   dev_work = \<lparr>wi_running = None,
                                wi_pending = Some (LOG_POLL_SEC * 1000)\<rparr>\<rparr>,
         pr_calls = [ModDelayedWork 0, FlushDelayedWork],
         pr_cycles = [fwk_ec_console_log_work sz ec_r once d,
                      fwk_ec_console_log_work sz ec_next
                        (wr_once (fwk_ec_console_log_work sz ec_r once d))
                        (wr_state (fwk_ec_console_log_work sz ec_r once d))]\<rparr>)"
proof (intro conjI impI)
  assume "dev_log dev = None"
  then show "fwk_ec_debugfs_panic_event sz ec_next once dev =
      \<lparr>pr_ret = NOTIFY_DONE, pr_once = once, pr_dev = dev, pr_calls = [], pr_cycles = []\<rparr>"
    by (simp add: fwk_ec_debugfs_panic_event_def)
next
  assume "dev_log dev = Some d \<and> wi_running (dev_work dev) = None"
  then show "fwk_ec_debugfs_panic_event sz ec_next once dev =
        \<lparr>pr_ret = NOTIFY_DONE,
         pr_once = wr_once (fwk_ec_console_log_work sz ec_next once d),
         pr_dev = \<lparr>dev_log = Some (wr_state (fwk_ec_console_log_work sz ec_next once d)),
                   dev_work = \<lparr>wi_running = None,
                                wi_pending = Some (LOG_POLL_SEC * 1000)\<rparr>\<rparr>,
         pr_calls = [ModDelayedWork 0, FlushDelayedWork],
         pr_cycles = [fwk_ec_console_log_work sz ec_next once d]\<rparr>"
    by (simp add: fwk_ec_debugfs_panic_event_def flush_delayed_work_def mod_delayed_work_def
          Let_def finish_cycle_eq schedule_delayed_work_def)
next
  assume "dev_log dev = Some d \<and> wi_running (dev_work dev) = Some ec_r"
  then show "fwk_ec_debugfs_panic_event sz ec_next once dev =
        \<lparr>pr_ret = NOTIFY_DONE,
         pr_once = wr_once (fwk_ec_console_log_work sz ec_next
                     (wr_once (fwk_ec_console_log_work sz ec_r once d))
                     (wr_state (fwk_ec_console_log_work sz ec_r once d))),
         pr_dev = \<lparr>dev_log = Some (wr_state (fwk_ec_console_log_work sz ec_next
                     (wr_once (fwk_ec_console_log_work sz ec_r once d))
                     (wr_state (fwk_ec_console_log_work sz ec_r once d)))),
                   dev_work = \<lparr>wi_running = None,
                                wi_pending = Some (LOG_POLL_SEC * 1000)\<rparr>\<rparr>,
         pr_calls = [ModDelayedWork 0, FlushDelayedWork],
         pr_cycles = [fwk_ec_console_log_work sz ec_r once d,
                      fwk_ec_console_log_work sz ec_next
                        (wr_once (fwk_ec_console_log_work sz ec_r once d))
                        (wr_state (fwk_ec_console_log_work sz ec_r once d))]\<rparr>"
    by (simp add: fwk_ec_debugfs_panic_event_def flush_delayed_work_def mod_delayed_work_def
          Let_def finish_cycle_eq schedule_delayed_work_def)
qed

theorem panic_event_forces_one_cycle_witness:
  "pr_calls (fwk_ec_debugfs_panic_event 16 (ec_holding [77])  False
     \<lparr>dev_log = None, dev_work = \<lparr>wi_running = None, wi_pending = None\<rparr>\<rparr>) = [] \<and>
   map wr_events (pr_cycles (fwk_ec_debugfs_panic_event 16 (ec_holding [77]) False
     \<lparr>dev_log = Some \<lparr>log_buffer = \<lparr>buf = (\<lambda>_. 65), head = 3, tail = 0\<rparr>\<rparr>,
      dev_work = \<lparr>wi_running = None, wi_pending = Some 10000\<rparr>\<rparr>)) =
     [[XferSnapshot, XferRead, WakeUp, XferRead, ScheduleDelayedWork 10000]] \<and>
   map wr_events (pr_cycles (fwk_ec_debugfs_panic_event 16 (ec_holding [77]) False
     \<lparr>dev_log = Some \<lparr>log_buffer = \<lparr>buf = (\<lambda>_. 65), head = 3, tail = 0\<rparr>\<rparr>,
      dev_work = \<lparr>wi_running = Some (ec_holding [72, 73]), wi_pending = None\<rparr>\<rparr>)) =
     [[XferSnapshot, XferRead, WakeUp, XferRead, ScheduleDelayedWork 10000],
      [XferSnapshot, XferRead, WakeUp, XferRead, ScheduleDelayedWork 10000]] \<and>
   map wr_appended (pr_cycles (fwk_ec_debugfs_panic_event 16 (ec_holding [77]) False
     \<lparr>dev_log = Some \<lparr>log_buffer = \<lparr>buf = (\<lambda>_. 65), head = 3, tail = 0\<rparr>\<rparr>,
      dev_work = \<lparr>wi_running = Some (ec_holding [72, 73]), wi_pending = None\<rparr>\<rparr>)) =
     [[72, 73], [77]] \<and>
   dev_work (pr_dev (fwk_ec_debugfs_panic_event 16 (ec_holding [77]) False
     \<lparr>dev_log = Some \<lparr>log_buffer = \<lparr>buf = (\<lambda>_. 65), head = 3, tail = 0\<rparr>\<rparr>,
      dev_work = \<lparr>wi_running = Some (ec_holding [72, 73]), wi_pending = None\<rparr>\<rparr>)) =
     \<lparr>wi_running = None, wi_pending = Some 10000\<rparr>"
proof -
  let ?d = "\<lparr>log_buffer = \<lparr>buf = (\<lambda>_. 65 :: u8), head = 3, tail = 0\<rparr>\<rparr>"
  let ?nolog = "\<lparr>dev_log = None, dev_work = \<lparr>wi_running = None, wi_pending = None\<rparr>\<rparr>"
  let ?idle = "\<lparr>dev_log = Some ?d, dev_work = \<lparr>wi_running = None, wi_pending = Some 10000\<rparr>\<rparr>"
  let ?busy = "\<lparr>dev_log = Some ?d,
      dev_work = \<lparr>wi_running = Some (ec_holding [72, 73]), wi_pending = None\<rparr>\<rparr>"
  let ?next = "ec_holding [77]"
  let ?w0 = "fwk_ec_console_log_work 16 ?next False ?d"
  let ?w1 = "fwk_ec_console_log_work 16 (ec_holding [72, 73]) False ?d"
  let ?w2 = "fwk_ec_console_log_work 16 ?next (wr_once ?w1) (wr_state ?w1)"
  have n: "dev_log ?nolog = None"
    by simp
  with panic_event_forces_one_cycle [of ?nolog 16 ?next False]
  have "fwk_ec_debugfs_panic_event 16 ?next False ?nolog =
      \<lparr>pr_ret = NOTIFY_DONE, pr_once = False, pr_dev = ?nolog, pr_calls = [], pr_cycles = []\<rparr>"
    by blast
  then have c0: "pr_calls (fwk_ec_debugfs_panic_event 16 ?next False ?nolog) = []"
    by simp
  have i: "dev_log ?idle = Some ?d \<and> wi_running (dev_work ?idle) = None"
    by simp
  with panic_event_forces_one_cycle [of ?idle 16 ?next False ?d]
  have "pr_cycles (fwk_ec_debugfs_panic_event 16 ?next False ?idle) = [?w0]"
    by simp
  then have c1: "map wr_events (pr_cycles (fwk_ec_debugfs_panic_event 16 ?next False ?idle)) =
      [[XferSnapshot, XferRead, WakeUp, XferRead, ScheduleDelayedWork 10000]]"
    by (simp add: eval_simps)
  have b: "dev_log ?busy = Some ?d \<and> wi_running (dev_work ?busy) = Some (ec_holding [72, 73])"
    by simp
  with panic_event_forces_one_cycle [of ?busy 16 ?next False ?d "ec_holding [72, 73]"]
  have "fwk_ec_debugfs_panic_event 16 ?next False ?busy =
      \<lparr>pr_ret = NOTIFY_DONE, pr_once = wr_once ?w2,
       pr_dev = \<lparr>dev_log = Some (wr_state ?w2),
                 dev_work = \<lparr>wi_running = None, wi_pending = Some (LOG_POLL_SEC * 1000)\<rparr>\<rparr>,
       pr_calls = [ModDelayedWork 0, FlushDelayedWork], pr_cycles = [?w1, ?w2]\<rparr>"
    by blast
  then have cyc: "pr_cycles (fwk_ec_debugfs_panic_event 16 ?next False ?busy) = [?w1, ?w2]"
    and wk: "dev_work (pr_dev (fwk_ec_debugfs_panic_event 16 ?next False ?busy)) =
      \<lparr>wi_running = None, wi_pending = Some 10000\<rparr>"
    by (simp_all add: LOG_POLL_SEC_def)
  have c2: "map wr_events (pr_cycles (fwk_ec_debugfs_panic_event 16 ?next False ?busy)) =
      [[XferSnapshot, XferRead, WakeUp, XferRead, ScheduleDelayedWork 10000],
       [XferSnapshot, XferRead, WakeUp, XferRead, ScheduleDelayedWork 10000]]"
    unfolding cyc by (simp add: eval_simps)
  have c3: "map wr_appended (pr_cycles (fwk_ec_debugfs_panic_event 16 ?next False ?busy)) =
      [[72, 73], [77]]"
    unfolding cyc by (simp add: eval_simps)
  from c0 c1 c2 c3 wk show ?thesis
    by blast
qed

section \<open>The reader on an empty buffer\<close>

text \<open>
  C8. A non-blocking read (\<open>O_NONBLOCK\<close> set) that finds the buffer empty returns
  \<open>-EAGAIN\<close> at once, whatever the wake-ups the environment would deliver: no wait is
  entered, no byte is handed out and the buffer, with its cursors, is left as it was.
  The result is an error, so it is not a successful read of zero bytes.
\<close>

theorem nonblocking_read_empty_eagain:
  "CIRC_CNT (head cb) (tail cb) sz = 0 \<Longrightarrow>
   fwk_ec_console_log_read sz True count writable ws cb =
     Some \<lparr>rr_ret = Inl EAGAIN, rr_data = [], rr_cb = cb\<rparr>"
  by (simp add: fwk_ec_console_log_read.simps)

theorem nonblocking_read_empty_eagain_witness:
  "CIRC_CNT (head (log_buffer init_debugfs)) (tail (log_buffer init_debugfs)) LOG_SIZE = 0 \<and>
   fwk_ec_console_log_read LOG_SIZE True 100 100 [] (log_buffer init_debugfs) =
     Some \<lparr>rr_ret = Inl EAGAIN, rr_data = [], rr_cb = log_buffer init_debugfs\<rparr>"
proof -
  have e: "CIRC_CNT (head (log_buffer init_debugfs)) (tail (log_buffer init_debugfs)) LOG_SIZE = 0"
    by (simp add: init_debugfs_def CIRC_CNT_def)
  from e nonblocking_read_empty_eagain [OF e, of 100 100 "[]"] show ?thesis
    by simp
qed

text \<open>
  C9. A blocking read sleeps while the buffer is empty. When a wait is interrupted by a
  signal, after any number of wake-ups that found the buffer empty again, the call
  returns \<open>-ERESTARTSYS\<close>, which is not the \<open>-EAGAIN\<close> of the non-blocking path;
  it hands out no byte, and the buffer is exactly as the reader last found it under the
  mutex: the reader has moved neither \<open>tail\<close> nor anything else.
\<close>

theorem blocking_read_interrupted:
  assumes "\<forall>c \<in> set (cb # cbs). CIRC_CNT (head c) (tail c) sz = 0"
  shows "fwk_ec_console_log_read sz False count writable (map Woken cbs @ Interrupted # ws) cb =
           Some \<lparr>rr_ret = Inl ERESTARTSYS, rr_data = [], rr_cb = last (cb # cbs)\<rparr> \<and>
         (Inl ERESTARTSYS :: error + nat) \<noteq> Inl EAGAIN"
  using assms
proof (induction cbs arbitrary: cb)
  case Nil
  then show ?case
    by (simp add: read_empty_interrupted)
next
  case (Cons c cbs)
  from Cons.prems have "CIRC_CNT (head cb) (tail cb) sz = 0"
    and rest: "\<forall>c' \<in> set (c # cbs). CIRC_CNT (head c') (tail c') sz = 0"
    by simp_all
  then have "fwk_ec_console_log_read sz False count writable
               (map Woken (c # cbs) @ Interrupted # ws) cb =
             fwk_ec_console_log_read sz False count writable
               (map Woken cbs @ Interrupted # ws) c"
    by (simp add: read_empty_woken)
  with Cons.IH [OF rest] show ?case
    by simp
qed

theorem blocking_read_interrupted_witness:
  "CIRC_CNT 3 3 LOG_SIZE = 0 \<and> CIRC_CNT 7 7 LOG_SIZE = 0 \<and>
   fwk_ec_console_log_read LOG_SIZE False 64 64
       [Woken \<lparr>buf = (\<lambda>_. 0), head = 7, tail = 7\<rparr>, Interrupted]
       \<lparr>buf = (\<lambda>_. 0), head = 3, tail = 3\<rparr> =
     Some \<lparr>rr_ret = Inl ERESTARTSYS, rr_data = [],
           rr_cb = \<lparr>buf = (\<lambda>_. 0), head = 7, tail = 7\<rparr>\<rparr>"
proof -
  have e: "\<forall>c \<in> set (\<lparr>buf = (\<lambda>_. 0), head = 3, tail = 3\<rparr> #
                        [\<lparr>buf = (\<lambda>_. 0), head = 7, tail = 7\<rparr>]).
             CIRC_CNT (head c) (tail c) LOG_SIZE = 0"
    by (simp add: CIRC_CNT_def)
  from e blocking_read_interrupted [OF e, of 64 64 "[]"] show ?thesis
    by (simp add: CIRC_CNT_def)
qed

text \<open>
  C10. A blocking read of length 0 that finds the buffer empty does not return 0 at
  once. With no wake-up it has not returned; on any sequence of wait outcomes it
  returns exactly when a read of any length \<open>n\<close> returns; and when it returns, either
  a wait was interrupted, or it returns 0 with no data and leaves the buffer, a
  non-empty one that a wake-up showed it, as it found it (head and tail unchanged).
\<close>

theorem blocking_read_zero_length_waits:
  assumes "sz = 2 ^ k"
    and "CIRC_CNT (head cb) (tail cb) sz = 0"
    and "\<forall>c. Woken c \<in> set ws \<longrightarrow> cursors_ok sz c"
  shows "fwk_ec_console_log_read sz False 0 writable [] cb = None \<and>
         ((fwk_ec_console_log_read sz False 0 writable ws cb = None) =
          (fwk_ec_console_log_read sz False n writable' ws cb = None)) \<and>
         (\<forall>rr. fwk_ec_console_log_read sz False 0 writable ws cb = Some rr \<longrightarrow>
            rr_ret rr = Inl ERESTARTSYS \<or>
            (rr_ret rr = Inr 0 \<and> rr_data rr = [] \<and> Woken (rr_cb rr) \<in> set ws \<and>
             CIRC_CNT (head (rr_cb rr)) (tail (rr_cb rr)) sz \<noteq> 0))"
proof (intro conjI)
  show "fwk_ec_console_log_read sz False 0 writable [] cb = None"
    using assms(2) by (rule read_empty_asleep)
next
  show "(fwk_ec_console_log_read sz False 0 writable ws cb = None) =
        (fwk_ec_console_log_read sz False n writable' ws cb = None)"
    using assms(2)
  proof (induction ws arbitrary: cb)
    case Nil
    then show ?case by (simp add: read_empty_asleep)
  next
    case (Cons w ws)
    show ?case
    proof (cases w)
      case Interrupted
      with Cons.prems show ?thesis by (simp add: read_empty_interrupted)
    next
      case (Woken c)
      show ?thesis
      proof (cases "CIRC_CNT (head c) (tail c) sz = 0")
        case True
        with Cons.IH [OF True] Cons.prems Woken show ?thesis
          by (simp add: read_empty_woken)
      next
        case False
        with Cons.prems Woken show ?thesis
          by (simp add: read_empty_woken read_nonempty Let_def)
      qed
    qed
  qed
next
  show "\<forall>rr. fwk_ec_console_log_read sz False 0 writable ws cb = Some rr \<longrightarrow>
          rr_ret rr = Inl ERESTARTSYS \<or>
          (rr_ret rr = Inr 0 \<and> rr_data rr = [] \<and> Woken (rr_cb rr) \<in> set ws \<and>
           CIRC_CNT (head (rr_cb rr)) (tail (rr_cb rr)) sz \<noteq> 0)"
    using assms(2,3)
  proof (induction ws arbitrary: cb)
    case Nil
    then show ?case by (simp add: read_empty_asleep)
  next
    case (Cons w ws)
    show ?case
    proof (cases w)
      case Interrupted
      with Cons.prems show ?thesis by (simp add: read_empty_interrupted)
    next
      case (Woken c)
      show ?thesis
      proof (cases "CIRC_CNT (head c) (tail c) sz = 0")
        case True
        from Cons.prems(2) have "\<forall>c. Woken c \<in> set ws \<longrightarrow> cursors_ok sz c"
          by simp
        from Cons.IH [OF True this] Cons.prems(1) Woken show ?thesis
          by (simp add: read_empty_woken) blast
      next
        case False
        from Cons.prems(2) Woken have ok: "cursors_ok sz c"
          by simp
        then have "tail c mod sz = tail c"
          by (simp add: cursors_ok_def)
        then have "c\<lparr>tail := CIRC_ADD (tail c) sz 0\<rparr> = c"
          using assms(1) by (simp add: CIRC_ADD_mod)
        with False Cons.prems(1) Woken show ?thesis
          by (simp add: read_empty_woken read_nonempty copy_to_user_def)
      qed
    qed
  qed
qed

theorem blocking_read_zero_length_waits_witness:
  "fwk_ec_console_log_read 16 False 0 0 [] \<lparr>buf = (\<lambda>_. 65), head = 5, tail = 5\<rparr> = None \<and>
   fwk_ec_console_log_read 16 False 0 0
       [Woken \<lparr>buf = (\<lambda>_. 65), head = 5, tail = 5\<rparr>, Woken \<lparr>buf = (\<lambda>_. 65), head = 9, tail = 5\<rparr>]
       \<lparr>buf = (\<lambda>_. 65), head = 5, tail = 5\<rparr> =
     Some \<lparr>rr_ret = Inr 0, rr_data = [], rr_cb = \<lparr>buf = (\<lambda>_. 65), head = 9, tail = 5\<rparr>\<rparr>"
proof -
  let ?e = "\<lparr>buf = (\<lambda>_. 65 :: u8), head = 5, tail = 5\<rparr>"
  let ?f = "\<lparr>buf = (\<lambda>_. 65 :: u8), head = 9, tail = 5\<rparr>"
  have a: "(16 :: int) = 2 ^ 4" by simp
  have b: "CIRC_CNT (head ?e) (tail ?e) 16 = 0"
    by (simp add: CIRC_CNT_def)
  have c: "\<forall>c. Woken c \<in> set [Woken ?e, Woken ?f] \<longrightarrow> cursors_ok 16 c"
    by (auto simp add: cursors_ok_def)
  have d: "fwk_ec_console_log_read 16 False 0 0 [Woken ?e, Woken ?f] ?e =
             Some \<lparr>rr_ret = Inr 0, rr_data = [], rr_cb = ?f\<rparr>"
    by (simp add: fwk_ec_console_log_read.simps CIRC_CNT_def CIRC_CNT_TO_END_def
          CIRC_ADD_def copy_to_user_def)
  from blocking_read_zero_length_waits [OF a b c, of 0 0 0] d show ?thesis
    by simp
qed

end
